theory Spec2Isabelle
  imports Main "HOL-Library.Word" "HOL-Library.Multiset" "HOL-Library.Sublist"
    "HOL-Library.Char_ord" "HOL-Library.List_Lexorder"
begin

section \<open>Data model (main.go, lines 19-28)\<close>

text \<open>
  Go's \<^verbatim>\<open>int\<close> is taken at its width on the 64-bit platforms: a 64-bit two's complement
  integer whose \<^verbatim>\<open>+=\<close> wraps around. \<open>sint\<close> reads the signed value.
\<close>

type_synonym goint = "64 word"

record ChangesStats =
  Insertions :: goint
  Deletions :: goint

text \<open>
  A Go map is a partial function; reading a missing key gives the zero value of the
  value type, which every read below writes out.
\<close>

record GlobalStats =
  Stats :: "string \<rightharpoonup> (string \<rightharpoonup> ChangesStats)"
  totalInsertions :: goint
  totalDeletions :: goint

section \<open>Library functions used by the parser\<close>

text \<open>\<^verbatim>\<open>strings.Split(s, "\n")\<close>: the pieces between newlines, one more than there are newlines.\<close>

fun Split :: "string \<Rightarrow> string list" where
  "Split [] = [[]]"
| "Split (c # cs) =
     (if c = CHR 0x0A then [] # Split cs
      else (c # hd (Split cs)) # tl (Split cs))"

text \<open>\<^verbatim>\<open>strings.Contains(s, substr)\<close>.\<close>

fun Contains :: "string \<Rightarrow> string \<Rightarrow> bool" where
  "Contains [] substr = (substr = [])"
| "Contains (c # cs) substr = (prefix substr (c # cs) \<or> Contains cs substr)"

text \<open>The class \<^verbatim>\<open>\d\<close> of Go's regexp package: the ASCII digits.\<close>

definition isDigit :: "char \<Rightarrow> bool" where
  "isDigit c = (CHR ''0'' \<le> c \<and> c \<le> CHR ''9'')"

text \<open>
  The two patterns of lines 34-35 are \<^verbatim>\<open>(\d+) insertions?\(\+\)\<close> and
  \<^verbatim>\<open>(\d+) deletions?\(-\)\<close>: a run of digits, a space, the unit word, an optional
  \<^verbatim>\<open>s\<close> and the sign in parentheses. \<open>matchAt unit sign s\<close> matches such a pattern at
  the start of \<open>s\<close> and returns the capture group. The greedy \<^verbatim>\<open>\d+\<close> is followed by a
  space, which is no digit, so the group is the whole run of digits that starts there.
\<close>

definition matchAt :: "string \<Rightarrow> string \<Rightarrow> string \<Rightarrow> string option" where
  "matchAt unit sign s =
     (let ds = takeWhile isDigit s; r = dropWhile isDigit s
      in if ds \<noteq> [] \<and>
            (prefix ('' '' @ unit @ sign) r \<or> prefix ('' '' @ unit @ ''s'' @ sign) r)
         then Some ds else None)"

text \<open>
  \<^verbatim>\<open>FindStringSubmatch\<close> returns the leftmost match: the first position, from the
  left, where the pattern matches. The result is the capture group of that match, or
  \<open>None\<close> for Go's nil slice (\<^verbatim>\<open>len(...) == 0\<close>).
\<close>

fun FindStringSubmatch :: "string \<Rightarrow> string \<Rightarrow> string \<Rightarrow> string option" where
  "FindStringSubmatch unit sign [] = None"
| "FindStringSubmatch unit sign (c # cs) =
     (case matchAt unit sign (c # cs) of
        Some ds \<Rightarrow> Some ds
      | None \<Rightarrow> FindStringSubmatch unit sign cs)"

definition digitVal :: "char \<Rightarrow> nat" where
  "digitVal c = of_char c - 48"

definition decimal :: "string \<Rightarrow> nat" where
  "decimal ds = foldl (\<lambda>n c. 10 * n + digitVal c) 0 ds"

text \<open>
  \<^verbatim>\<open>fmt.Sscanf(g, "%d", &v)\<close> on a non-empty string of digits, with \<open>v\<close> zero before
  the call: the number read in base ten is stored when it fits a signed 64-bit integer;
  otherwise the scan fails, its error is dropped by the caller, and \<open>v\<close> stays zero.
\<close>

definition Sscanf_d :: "string \<Rightarrow> goint" where
  "Sscanf_d ds = (if decimal ds < 2 ^ 63 then of_nat (decimal ds) else 0)"

section \<open>The parsing loop of processDir (main.go, lines 74-106)\<close>

text \<open>Lines 83-84: the test that makes a line a statistics line.\<close>

definition isStatLine :: "string \<Rightarrow> bool" where
  "isStatLine line = (Contains line ''files changed'' \<or> Contains line ''file changed'')"

text \<open>Lines 85-94: the two counts extracted from a statistics line.\<close>

definition extractCounts :: "string \<Rightarrow> goint \<times> goint" where
  "extractCounts line =
     (let insertions = FindStringSubmatch ''insertion'' ''(+)'' line;
          deletions = FindStringSubmatch ''deletion'' ''(-)'' line;
          ins = (case insertions of None \<Rightarrow> 0 | Some g \<Rightarrow> Sscanf_d g);
          del = (case deletions of None \<Rightarrow> 0 | Some g \<Rightarrow> Sscanf_d g)
      in (ins, del))"

text \<open>
  The variables the loop changes: the \<open>author\<close> register, the scan's own \<open>stats\<close> map
  (author to the pair of counts) and, inside \<open>gb\<close>, the two running totals.
\<close>

record loopState =
  author :: string
  stats :: "string \<rightharpoonup> goint \<times> goint"
  gb :: GlobalStats

text \<open>Lines 96-101: what the loop does with the counts of one statistics line.\<close>

definition addCounts :: "goint \<times> goint \<Rightarrow> loopState \<Rightarrow> loopState" where
  "addCounts c s =
     (let userStats = (case stats s (author s) of None \<Rightarrow> (0, 0) | Some u \<Rightarrow> u);
          userStats' = (fst userStats + fst c, snd userStats + snd c)
      in s\<lparr>stats := (stats s)(author s \<mapsto> userStats'),
            gb := (gb s)\<lparr>totalInsertions := totalInsertions (gb s) + fst c,
                         totalDeletions := totalDeletions (gb s) + snd c\<rparr>\<rparr>)"

text \<open>One iteration of the loop of lines 78-106.\<close>

definition lineStep :: "loopState \<Rightarrow> string \<Rightarrow> loopState" where
  "lineStep s line =
     (if line = [] then s
      else if isStatLine line then addCounts (extractCounts line) s
      else s\<lparr>author := line\<rparr>)"

definition scanLines :: "string list \<Rightarrow> GlobalStats \<Rightarrow> loopState" where
  "scanLines lines g = foldl lineStep \<lparr>author = [], stats = Map.empty, gb = g\<rparr> lines"

section \<open>Accumulating a scan into the global statistics (main.go, lines 108-118)\<close>

text \<open>
  The loop of lines 109-118 visits every key of \<open>stats\<close> once, in an order the Go
  runtime chooses, and its iteration for an author reads and writes the entry of that
  author only. Its result is therefore the same in every order, and is given here entry
  by entry.
\<close>

definition addMonth :: "string \<Rightarrow> goint \<times> goint \<Rightarrow> (string \<rightharpoonup> ChangesStats) \<Rightarrow>
    (string \<rightharpoonup> ChangesStats)" where
  "addMonth monthStr counts months =
     (let authorMonthStats =
            (case months monthStr of None \<Rightarrow> \<lparr>Insertions = 0, Deletions = 0\<rparr> | Some c \<Rightarrow> c)
      in months(monthStr \<mapsto>
           \<lparr>Insertions = Insertions authorMonthStats + fst counts,
            Deletions = Deletions authorMonthStats + snd counts\<rparr>))"

definition accumulate :: "string \<Rightarrow> (string \<rightharpoonup> goint \<times> goint) \<Rightarrow> GlobalStats \<Rightarrow> GlobalStats" where
  "accumulate monthStr st g =
     g\<lparr>Stats := (\<lambda>a. case st a of
                     None \<Rightarrow> Stats g a
                   | Some counts \<Rightarrow>
                       Some (addMonth monthStr counts
                               (case Stats g a of None \<Rightarrow> Map.empty | Some months \<Rightarrow> months)))\<rparr>"

text \<open>
  Lines 74-120: everything processDir does with the output of a command that succeeded,
  for the month key \<open>monthStr\<close> of the iteration.
\<close>

definition processOutput :: "string \<Rightarrow> string \<Rightarrow> GlobalStats \<Rightarrow> GlobalStats" where
  "processOutput monthStr output g =
     (let s = scanLines (Split output) g in accumulate monthStr (stats s) (gb s))"

section \<open>Clauses of a statistics line\<close>

text \<open>
  A line has an insertions (deletions) clause when it holds, somewhere, a non-empty run of
  digits, a space, the unit word with or without its plural \<^verbatim>\<open>s\<close>, and the sign in
  parentheses: the language of the pattern of line 34 (line 35), stated without
  reference to the matcher.
\<close>

definition hasClause :: "string \<Rightarrow> string \<Rightarrow> string \<Rightarrow> bool" where
  "hasClause unit sign line =
     (\<exists>pre ds post. ds \<noteq> [] \<and> (\<forall>c\<in>set ds. isDigit c) \<and>
        (line = pre @ ds @ '' '' @ unit @ sign @ post \<or>
         line = pre @ ds @ '' '' @ unit @ ''s'' @ sign @ post))"

section \<open>Attribution tuples and their fold, as the specification words them\<close>

text \<open>
  The code keeps no list of tuples: it adds the counts of every statistics line to the
  scan's map and to the totals at once. The two definitions of this section follow the
  specification's description of the Record Parser (a register for the current author,
  one tuple per statistics line) and of the Aggregator (one cell and the totals updated
  per tuple); they are compared below with the loops of the code.
\<close>

fun attributionTuples :: "string \<Rightarrow> string list \<Rightarrow> (string \<times> goint \<times> goint) list" where
  "attributionTuples currentAuthor [] = []"
| "attributionTuples currentAuthor (line # lines) =
     (if line = [] then attributionTuples currentAuthor lines
      else if isStatLine line
        then (currentAuthor, extractCounts line) # attributionTuples currentAuthor lines
      else attributionTuples line lines)"

definition foldTuple :: "string \<Rightarrow> GlobalStats \<Rightarrow> string \<times> goint \<times> goint \<Rightarrow> GlobalStats" where
  "foldTuple monthStr g t =
     g\<lparr>Stats := (Stats g)(fst t \<mapsto>
          addMonth monthStr (snd t)
            (case Stats g (fst t) of None \<Rightarrow> Map.empty | Some months \<Rightarrow> months)),
       totalInsertions := totalInsertions g + fst (snd t),
       totalDeletions := totalDeletions g + snd (snd t)\<rparr>"

section \<open>The text of a well-formed scan\<close>

text \<open>
  The history source is \<^verbatim>\<open>git log --pretty=%ae --shortstat\<close> (line 54): per commit a
  line with the author and a summary line, which git prints as
  \<^verbatim>\<open> F file(s) changed, N insertion(s)(+), M deletion(s)(-)\<close> with the numbers in
  decimal and the plural \<^verbatim>\<open>s\<close> for every number but 1.
\<close>

fun showNat :: "nat \<Rightarrow> string" where
  "showNat n =
     (if n < 10 then [char_of (48 + n)]
      else showNat (n div 10) @ [char_of (48 + n mod 10)])"

declare showNat.simps [simp del]

definition plural :: "nat \<Rightarrow> string" where
  "plural n = (if n = 1 then [] else ''s'')"

definition shortstat :: "nat \<Rightarrow> nat \<Rightarrow> nat \<Rightarrow> string" where
  "shortstat f n m =
     '' '' @ showNat f @ '' file'' @ plural f @ '' changed, '' @
     showNat n @ '' insertion'' @ plural n @ ''(+), '' @
     showNat m @ '' deletion'' @ plural m @ ''(-)''"

text \<open>An author line: not empty, within one line, and not taken for a statistics line.\<close>

definition isAuthorLine :: "string \<Rightarrow> bool" where
  "isAuthorLine line = (line \<noteq> [] \<and> CHR 0x0A \<notin> set line \<and> \<not> isStatLine line)"

text \<open>The scan output of the specification's example of attribution over several records.\<close>

definition exampleLog :: string where
  "exampleLog =
     ''alice@x'' @ [CHR 0x0A] @
     '' 1 file changed, 3 insertions(+)'' @ [CHR 0x0A] @
     '' 2 file changed, 1 insertion(+), 1 deletion(-)'' @ [CHR 0x0A] @
     ''bob@x'' @ [CHR 0x0A] @
     '' 1 file changed, 5 insertions(+)'' @ [CHR 0x0A]"

text \<open>Line 31-32: the statistics at the start of a run.\<close>

definition gbInit :: GlobalStats where
  "gbInit = \<lparr>Stats = Map.empty, totalInsertions = 0, totalDeletions = 0\<rparr>"

section \<open>Runs of scans\<close>

text \<open>
  A scan that succeeded is the month key of its iteration together with the output of
  its command; folding it into the statistics is what lines 74-120 do.
\<close>

definition foldScan :: "GlobalStats \<Rightarrow> string \<times> string \<Rightarrow> GlobalStats" where
  "foldScan g scan = processOutput (fst scan) (snd scan) g"

text \<open>The tuples of a list of scans, each with the month key of its scan.\<close>

definition taggedTuples :: "(string \<times> string) list \<Rightarrow> (string \<times> string \<times> goint \<times> goint) list" where
  "taggedTuples scans =
     concat (map (\<lambda>scan. map (Pair (fst scan)) (attributionTuples [] (Split (snd scan)))) scans)"

text \<open>
  The sums of the counts over every (author, month) cell of the nested map, in the
  arithmetic of Go's \<^verbatim>\<open>int\<close>, as \<^verbatim>\<open>printStats\<close> adds them up.
\<close>

definition rowSum :: "(ChangesStats \<Rightarrow> 'n::comm_monoid_add) \<Rightarrow> (string \<rightharpoonup> ChangesStats) \<Rightarrow> 'n" where
  "rowSum h months = (\<Sum>m\<in>dom months. h (the (months m)))"

definition cellSum :: "(ChangesStats \<Rightarrow> 'n::comm_monoid_add) \<Rightarrow> GlobalStats \<Rightarrow> 'n" where
  "cellSum h g = (\<Sum>a\<in>dom (Stats g). rowSum h (the (Stats g a)))"

definition cellInsertions :: "GlobalStats \<Rightarrow> goint" where
  "cellInsertions g = cellSum Insertions g"

definition cellDeletions :: "GlobalStats \<Rightarrow> goint" where
  "cellDeletions g = cellSum Deletions g"

text \<open>Notions for the proofs about the statistics: all key sets are finite; the row of
  an author, empty when the author has none; the totals agree with the cells; a tuple
  folded under its month key.\<close>

definition finDoms :: "GlobalStats \<Rightarrow> bool" where
  "finDoms g = (finite (dom (Stats g)) \<and> (\<forall>a months. Stats g a = Some months \<longrightarrow> finite (dom months)))"

definition row :: "GlobalStats \<Rightarrow> string \<Rightarrow> (string \<rightharpoonup> ChangesStats)" where
  "row g a = (case Stats g a of None \<Rightarrow> Map.empty | Some months \<Rightarrow> months)"

definition consistent :: "GlobalStats \<Rightarrow> bool" where
  "consistent g = (finDoms g \<and> totalInsertions g = cellInsertions g \<and>
     totalDeletions g = cellDeletions g)"

definition foldTagged :: "string \<times> string \<times> goint \<times> goint \<Rightarrow> GlobalStats \<Rightarrow> GlobalStats" where
  "foldTagged mt g = foldTuple (fst mt) g (snd mt)"

text \<open>Two scans of different months, for checking statements at concrete inputs.\<close>

definition example1 :: "string \<times> string" where
  "example1 = (''(2024-03) March 2024'', exampleLog)"

definition example2 :: "string \<times> string" where
  "example2 =
     (''(2024-02) February 2024'',
      ''bob@x'' @ [CHR 0x0A] @ '' 1 file changed, 2 deletions(-)'' @ [CHR 0x0A])"

section \<open>Signs of the counts\<close>

text \<open>
  The number of inserted and of deleted lines read from a list of scans, as natural
  numbers, the counts of all tuples added up without wrap-around.
\<close>

definition insertionsRead :: "(string \<times> string) list \<Rightarrow> nat" where
  "insertionsRead scans = sum_list (map (\<lambda>mt. unat (fst (snd (snd mt)))) (taggedTuples scans))"

definition deletionsRead :: "(string \<times> string) list \<Rightarrow> nat" where
  "deletionsRead scans = sum_list (map (\<lambda>mt. unat (snd (snd (snd mt)))) (taggedTuples scans))"

text \<open>Every cell holds non-negative counts, read as Go reads its \<^verbatim>\<open>int\<close>.\<close>

definition cellsNonneg :: "GlobalStats \<Rightarrow> bool" where
  "cellsNonneg g =
     (\<forall>a m c. row g a m = Some c \<longrightarrow> 0 \<le> sint (Insertions c) \<and> 0 \<le> sint (Deletions c))"

text \<open>Every cell of \<open>g\<close> is a cell of \<open>g'\<close> with counts that are not smaller.\<close>

definition cellsGrow :: "GlobalStats \<Rightarrow> GlobalStats \<Rightarrow> bool" where
  "cellsGrow g g' =
     (\<forall>a m c. row g a m = Some c \<longrightarrow>
        (\<exists>c'. row g' a m = Some c' \<and> sint (Insertions c) \<le> sint (Insertions c') \<and>
           sint (Deletions c) \<le> sint (Deletions c')))"

text \<open>A scan whose counts add up to more than the largest \<^verbatim>\<open>int\<close>.\<close>

definition overflowLog :: string where
  "overflowLog =
     ''a@x'' @ [CHR 0x0A] @
     '' 1 file changed, 9223372036854775807 insertions(+)'' @ [CHR 0x0A] @
     '' 1 file changed, 1 insertion(+)'' @ [CHR 0x0A]"

text \<open>Notions for the proofs: the cells add up, without wrap-around, to \<open>N\<close> insertions
  and \<open>M\<close> deletions, which are the totals; cells grow as unsigned numbers.\<close>

definition bounded :: "GlobalStats \<Rightarrow> nat \<Rightarrow> nat \<Rightarrow> bool" where
  "bounded g N M =
     (finDoms g \<and>
      cellSum (\<lambda>c. unat (Insertions c)) g = N \<and> unat (totalInsertions g) = N \<and>
      cellSum (\<lambda>c. unat (Deletions c)) g = M \<and> unat (totalDeletions g) = M)"

definition growU :: "GlobalStats \<Rightarrow> GlobalStats \<Rightarrow> bool" where
  "growU g g' =
     (\<forall>a m c. row g a m = Some c \<longrightarrow>
        (\<exists>c'. row g' a m = Some c' \<and> unat (Insertions c) \<le> unat (Insertions c') \<and>
           unat (Deletions c) \<le> unat (Deletions c')))"

text \<open>The counts of a list of tuples, added up as natural numbers.\<close>

definition sumI :: "(string \<times> string \<times> goint \<times> goint) list \<Rightarrow> nat" where
  "sumI ts = sum_list (map (\<lambda>mt. unat (fst (snd (snd mt)))) ts)"

definition sumD :: "(string \<times> string \<times> goint \<times> goint) list \<Rightarrow> nat" where
  "sumD ts = sum_list (map (\<lambda>mt. unat (snd (snd (snd mt)))) ts)"

section \<open>A statistics line with no author line before it\<close>

definition orphanLog :: string where
  "orphanLog = '' 1 file changed, 3 insertions(+)'' @ [CHR 0x0A]"

section \<open>Calendar dates: Go's time package (main.go, lines 47-49, 55-56, 113)\<close>

text \<open>
  A date is a year, a month (January is 1) and a day of the month. Only the date of a
  \<^verbatim>\<open>time.Time\<close> matters to the program: the hour of \<^verbatim>\<open>time.Now()\<close> is dropped by
  \<^verbatim>\<open>.Date()\<close> in line 47. The effect of daylight-saving gaps of the local zone on
  \<^verbatim>\<open>AddDate\<close> is outside this model.
\<close>

type_synonym date = "int \<times> int \<times> int"

definition isLeap :: "int \<Rightarrow> bool" where
  "isLeap y = (y mod 4 = 0 \<and> (y mod 100 \<noteq> 0 \<or> y mod 400 = 0))"

definition daysIn :: "int \<Rightarrow> int \<Rightarrow> int" where
  "daysIn y m =
     (if m = 2 then (if isLeap y then 29 else 28)
      else if m = 4 \<or> m = 6 \<or> m = 9 \<or> m = 11 then 30 else 31)"

text \<open>
  \<^verbatim>\<open>time.Date(year, month, day, ...)\<close> accepts values outside their usual ranges and
  normalises them: first the month, overflowing into the year, then the day, which counts
  on from the first day of that month (October 32 is November 1, and day 0 is the last
  day of the month before).
\<close>

definition normMonth :: "int \<Rightarrow> int \<Rightarrow> int \<times> int" where
  "normMonth y m = (y + (m - 1) div 12, (m - 1) mod 12 + 1)"

function normDay :: "int \<Rightarrow> int \<Rightarrow> int \<Rightarrow> date" where
  "normDay y m d =
     (if d < 1 then
        (case normMonth y (m - 1) of (y', m') \<Rightarrow> normDay y' m' (d + daysIn y' m'))
      else if daysIn y m < d then
        (case normMonth y (m + 1) of (y', m') \<Rightarrow> normDay y' m' (d - daysIn y m))
      else (y, m, d))"
  by pat_completeness auto
termination
  by (relation "measure (\<lambda>(y, m, d). if d < 1 then nat (33 - d) else nat d)")
    (auto simp: daysIn_def)

declare normDay.simps [simp del]

definition Date :: "int \<Rightarrow> int \<Rightarrow> int \<Rightarrow> date" where
  "Date year month day = (case normMonth year month of (y, m) \<Rightarrow> normDay y m day)"

text \<open>\<^verbatim>\<open>t.AddDate(years, months, days)\<close> is \<^verbatim>\<open>Date\<close> of the sums, field by field.\<close>

definition AddDate :: "date \<Rightarrow> int \<Rightarrow> int \<Rightarrow> int \<Rightarrow> date" where
  "AddDate t years months days =
     (case t of (year, month, day) \<Rightarrow> Date (year + years) (month + months) (day + days))"

text \<open>Line 47: the year and the month of iteration \<open>i\<close>, for the date \<open>now\<close> of the call.\<close>

definition iterMonth :: "date \<Rightarrow> nat \<Rightarrow> int \<times> int" where
  "iterMonth now i = (case AddDate now 0 (- int i) 0 of (year, month, _) \<Rightarrow> (year, month))"

text \<open>Lines 48-49.\<close>

definition firstDayOfMonth :: "date \<Rightarrow> nat \<Rightarrow> date" where
  "firstDayOfMonth now i = (case iterMonth now i of (year, month) \<Rightarrow> Date year month 1)"

definition lastDayOfMonth :: "date \<Rightarrow> nat \<Rightarrow> date" where
  "lastDayOfMonth now i = AddDate (firstDayOfMonth now i) 0 1 (- 1)"

subsection \<open>Formatting\<close>

text \<open>
  \<^verbatim>\<open>appendInt(b, x, width)\<close> of Go's time package: a minus sign for a negative number,
  then the decimal digits, padded with zeros on the left to \<open>width\<close> digits.
\<close>

definition appendInt :: "int \<Rightarrow> nat \<Rightarrow> string" where
  "appendInt x width =
     (let ds = showNat (nat \<bar>x\<bar>)
      in (if x < 0 then ''-'' else []) @ replicate (width - length ds) CHR ''0'' @ ds)"

definition longMonthNames :: "string list" where
  "longMonthNames =
     [''January'', ''February'', ''March'', ''April'', ''May'', ''June'', ''July'',
      ''August'', ''September'', ''October'', ''November'', ''December'']"

definition monthName :: "int \<Rightarrow> string" where
  "monthName m = longMonthNames ! nat (m - 1)"

text \<open>The layout \<^verbatim>\<open>"2006-01-02"\<close> of lines 55-56.\<close>

definition formatISO :: "date \<Rightarrow> string" where
  "formatISO t =
     (case t of (year, month, day) \<Rightarrow>
        appendInt year 4 @ ''-'' @ appendInt month 2 @ ''-'' @ appendInt day 2)"

text \<open>The layout \<^verbatim>\<open>"(2006-01) January 2006"\<close> of line 113: the month key.\<close>

definition formatMonthStr :: "date \<Rightarrow> string" where
  "formatMonthStr t =
     (case t of (year, month, day) \<Rightarrow>
        ''('' @ appendInt year 4 @ ''-'' @ appendInt month 2 @ '') '' @
        monthName month @ '' '' @ appendInt year 4)"

text \<open>The month key of iteration \<open>i\<close>.\<close>

definition monthKey :: "date \<Rightarrow> nat \<Rightarrow> string" where
  "monthKey now i = formatMonthStr (firstDayOfMonth now i)"

text \<open>A date of the calendar.\<close>

definition validDate :: "date \<Rightarrow> bool" where
  "validDate t =
     (case t of (year, month, day) \<Rightarrow>
        1 \<le> month \<and> month \<le> 12 \<and> 1 \<le> day \<and> day \<le> daysIn year month)"

text \<open>The \<open>k\<close> last decimal digits of a number: a notion for the proofs about keys.\<close>

fun pad :: "nat \<Rightarrow> nat \<Rightarrow> string" where
  "pad 0 n = []"
| "pad (Suc k) n = pad k (n div 10) @ [char_of (48 + n mod 10)]"

section \<open>The report (main.go, lines 149-239)\<close>

text \<open>
  \<^verbatim>\<open>for k, v := range m\<close> visits the entries of a map in an order that the Go runtime
  chooses anew for every loop. The order of the keys is a parameter of the model: a loop
  over a map is a loop over \<open>rangeOver m keys\<close>, where \<open>keys\<close> lists the keys of \<open>m\<close>
  in the order of that loop.
\<close>

definition rangeOver :: "('k \<rightharpoonup> 'v) \<Rightarrow> 'k list \<Rightarrow> ('k \<times> 'v) list" where
  "rangeOver m keys = List.map_filter (\<lambda>k. map_option (Pair k) (m k)) keys"

text \<open>The key orders of the loops of printStats, named by the line of the loop.\<close>

record rangeOrder =
  authors160 :: "string list"
  months161 :: "string \<Rightarrow> string list"
  authors184 :: "string \<Rightarrow> string list"
  months210 :: "string \<Rightarrow> string list"
  authors221 :: "string list"

text \<open>The orders list the keys of the maps of \<open>g\<close>, every key once.\<close>

definition keysOf :: "('k \<rightharpoonup> 'v) \<Rightarrow> 'k list \<Rightarrow> bool" where
  "keysOf m keys = (distinct keys \<and> set keys = dom m)"

definition rangeOK :: "rangeOrder \<Rightarrow> GlobalStats \<Rightarrow> bool" where
  "rangeOK ro g =
     (keysOf (Stats g) (authors160 ro) \<and> keysOf (Stats g) (authors221 ro) \<and>
      (\<forall>month. keysOf (Stats g) (authors184 ro month)) \<and>
      (\<forall>a months. Stats g a = Some months \<longrightarrow>
         keysOf months (months161 ro a) \<and> keysOf months (months210 ro a)))"

text \<open>
  What printStats writes, without the colours and the layout of the lines: per month the
  month key, the lines (author, insertions) and the total of the summary line; the lines
  (author, insertions) of the ranking of developers; the total of the last line.
\<close>

record report =
  blocks :: "(string \<times> (string \<times> goint) list \<times> goint) list"
  ranking :: "(string \<times> goint) list"
  grandTotal :: goint

text \<open>
  Lines 193-195 and 226-228: \<^verbatim>\<open>sort.Slice\<close> with the comparison \<^verbatim>\<open>Insertions > Insertions\<close>
  on Go's signed \<^verbatim>\<open>int\<close>. \<^verbatim>\<open>sort.Slice\<close> may reorder equal elements; since the list it
  sorts comes in an arbitrary order already, sorting that list stably yields the same
  possible results.
\<close>

definition sortSlice :: "(string \<times> goint) list \<Rightarrow> (string \<times> goint) list" where
  "sortSlice xs = sort_key (\<lambda>p. - sint (snd p)) xs"

text \<open>
  Lines 159-169: the months of all authors, every month once, sorted by
  \<^verbatim>\<open>sort.Strings\<close>. The set \<^verbatim>\<open>uniqueMonths\<close> is kept as the list of its elements; the
  order in which line 166 visits it does not matter to the sorted result.
\<close>

definition monthsOrdered :: "rangeOrder \<Rightarrow> GlobalStats \<Rightarrow> string list" where
  "monthsOrdered ro g =
     sort (remdups (concat (map (\<lambda>(author, months). map fst (rangeOver months (months161 ro author)))
       (rangeOver (Stats g) (authors160 ro)))))"

text \<open>Lines 172-204: the block of one month.\<close>

definition monthEntries :: "rangeOrder \<Rightarrow> GlobalStats \<Rightarrow> string \<Rightarrow> (string \<times> ChangesStats) list" where
  "monthEntries ro g month =
     List.map_filter (\<lambda>(author, monthsStats). map_option (Pair author) (monthsStats month))
       (rangeOver (Stats g) (authors184 ro month))"

definition monthBlock :: "rangeOrder \<Rightarrow> GlobalStats \<Rightarrow> string \<Rightarrow> string \<times> (string \<times> goint) list \<times> goint" where
  "monthBlock ro g month =
     (let entries = monthEntries ro g month;
          monthStats = map (\<lambda>(author, stats). (author, Insertions stats)) entries;
          totalInsertions = foldl (\<lambda>t (author, stats). t + Insertions stats) 0 entries
      in (month, sortSlice monthStats, totalInsertions))"

text \<open>Lines 207-213: the insertions of an author over all months.\<close>

definition authorInsertions :: "rangeOrder \<Rightarrow> GlobalStats \<Rightarrow> string \<Rightarrow> goint" where
  "authorInsertions ro g a =
     foldl (\<lambda>t (month, stats). t + Insertions stats) 0
       (rangeOver (row g a) (months210 ro a))"

text \<open>Lines 149-238. Nothing is written when there is no author (line 156).\<close>

definition printStats :: "rangeOrder \<Rightarrow> GlobalStats \<Rightarrow> report option" where
  "printStats ro g =
     (if Stats g = Map.empty then None
      else Some \<lparr>blocks = map (monthBlock ro g) (monthsOrdered ro g),
                 ranking = sortSlice (map (\<lambda>a. (a, authorInsertions ro g a)) (authors221 ro)),
                 grandTotal = totalInsertions g\<rparr>)"

section \<open>Scanning directories and months (main.go, lines 30-147)\<close>

text \<open>
  What the program takes from outside: the date of \<^verbatim>\<open>time.Now()\<close> in iteration \<open>i\<close>,
  the listing of a directory by \<^verbatim>\<open>os.ReadDir\<close> (names with their \<^verbatim>\<open>IsDir\<close> flag, or
  \<open>None\<close> for an error), \<^verbatim>\<open>filepath.Join\<close>, and the standard output of git for a list
  of arguments (\<open>None\<close> when \<^verbatim>\<open>cmd.Output()\<close> returns an error).
\<close>

record env =
  Now :: "nat \<Rightarrow> date"
  ReadDir :: "string \<Rightarrow> (string \<times> bool) list option"
  Join :: "string \<Rightarrow> string \<Rightarrow> string"
  Output :: "string list \<Rightarrow> string option"

datatype error = CommandFailed

text \<open>Lines 54-63.\<close>

definition gitArgs :: "string \<Rightarrow> date \<Rightarrow> date \<Rightarrow> string list" where
  "gitArgs dir firstDay lastDay =
     [''--no-pager'', ''-C'', dir, ''log'', ''--pretty=%ae'', ''--shortstat'',
      ''--since='' @ formatISO firstDay,
      ''--until='' @ formatISO lastDay,
      ''--'', ''*.swift'', ''--'', ''*.yml'', ''--'', ''*.java'', ''--'', ''*.kt'',
      ''--'', ''*.md'', ''--'', ''*.php'']"

text \<open>
  Lines 53-121: processDir returns an error and leaves the statistics alone when the
  command fails, and otherwise folds the output in under the month key of
  \<open>firstDayOfMonth\<close>.
\<close>

definition processDir :: "env \<Rightarrow> date \<Rightarrow> date \<Rightarrow> string \<Rightarrow> GlobalStats \<Rightarrow> error option \<times> GlobalStats" where
  "processDir e firstDay lastDay dir g =
     (case Output e (gitArgs dir firstDay lastDay) of
        None \<Rightarrow> (Some CommandFailed, g)
      | Some output \<Rightarrow> (None, processOutput (formatMonthStr firstDay) output g))"

text \<open>Lines 130-137: the error of a subdirectory is printed and the loop goes on.\<close>

fun dirLoop :: "env \<Rightarrow> date \<Rightarrow> date \<Rightarrow> string \<Rightarrow> (string \<times> bool) list \<Rightarrow> GlobalStats \<Rightarrow> GlobalStats" where
  "dirLoop e firstDay lastDay baseDir [] g = g"
| "dirLoop e firstDay lastDay baseDir (dir # dirs) g =
     (if snd dir
      then dirLoop e firstDay lastDay baseDir dirs
             (snd (processDir e firstDay lastDay (Join e baseDir (fst dir)) g))
      else dirLoop e firstDay lastDay baseDir dirs g)"

text \<open>
  Lines 44-144: the iterations \<open>i, i + 1, ...\<close> of the loop over the months, \<open>k\<close> of
  them. \<open>None\<close> stands for the two \<^verbatim>\<open>return\<close>s of lines 127 and 141, which leave main
  without a report.
\<close>

fun monthLoop :: "env \<Rightarrow> bool \<Rightarrow> string \<Rightarrow> nat \<Rightarrow> nat \<Rightarrow> GlobalStats \<Rightarrow> GlobalStats option" where
  "monthLoop e allRepos baseDir i 0 g = Some g"
| "monthLoop e allRepos baseDir i (Suc k) g =
     (let firstDay = firstDayOfMonth (Now e i) i;
          lastDay = lastDayOfMonth (Now e i) i
      in if allRepos then
           (case ReadDir e baseDir of
              None \<Rightarrow> None
            | Some dirs \<Rightarrow>
                monthLoop e allRepos baseDir (Suc i) k (dirLoop e firstDay lastDay baseDir dirs g))
         else
           (case processDir e firstDay lastDay baseDir g of
              (Some err, g') \<Rightarrow> None
            | (None, g') \<Rightarrow> monthLoop e allRepos baseDir (Suc i) k g'))"

text \<open>
  The result of a run: the report of printStats for the statistics gathered, or no
  report when main returned early.
\<close>

datatype outcome = Aborted | Finished GlobalStats

definition main :: "env \<Rightarrow> int \<Rightarrow> bool \<Rightarrow> string \<Rightarrow> outcome" where
  "main e monthsBack allRepos baseDir =
     (case monthLoop e allRepos baseDir 0 (nat monthsBack) gbInit of
        None \<Rightarrow> Aborted
      | Some g \<Rightarrow> Finished g)"

section \<open>The counts extracted from a statistics line\<close>

lemma isDigit_iff: "isDigit c \<longleftrightarrow> 48 \<le> (of_char c :: nat) \<and> (of_char c :: nat) \<le> 57"
  by (simp add: isDigit_def less_eq_char_def)

lemma not_isDigit_space [simp]: "\<not> isDigit CHR '' ''"
  by (simp add: isDigit_iff)

lemma not_isDigit_s [simp]: "\<not> isDigit CHR ''s''"
  by (simp add: isDigit_iff)

lemma takeWhile_digits_space:
  "\<forall>c\<in>set ds. isDigit c \<Longrightarrow> takeWhile isDigit (ds @ CHR '' '' # r) = ds"
  by (induction ds) auto

lemma dropWhile_digits_space:
  "\<forall>c\<in>set ds. isDigit c \<Longrightarrow> dropWhile isDigit (ds @ CHR '' '' # r) = CHR '' '' # r"
  by (induction ds) auto

lemma matchAt_here:
  assumes "ds \<noteq> []" "\<forall>c\<in>set ds. isDigit c"
    and "r = '' '' @ unit @ sign @ post \<or> r = '' '' @ unit @ ''s'' @ sign @ post"
  shows "matchAt unit sign (ds @ r) = Some ds"
  using assms
  by (auto simp: matchAt_def takeWhile_digits_space dropWhile_digits_space)

lemma matchAt_SomeD:
  assumes "matchAt unit sign s = Some ds"
  shows "ds = takeWhile isDigit s \<and> ds \<noteq> [] \<and>
    (\<exists>post. dropWhile isDigit s = '' '' @ unit @ sign @ post \<or>
            dropWhile isDigit s = '' '' @ unit @ ''s'' @ sign @ post)"
  using assms
  by (auto simp: matchAt_def Let_def prefix_def split: if_splits)

lemma matchAt_hasClause:
  assumes "matchAt unit sign s = Some ds"
  shows "hasClause unit sign s"
proof -
  from matchAt_SomeD [OF assms] obtain post where
    ds: "ds = takeWhile isDigit s" "ds \<noteq> []" and
    r: "dropWhile isDigit s = '' '' @ unit @ sign @ post \<or>
        dropWhile isDigit s = '' '' @ unit @ ''s'' @ sign @ post"
    by blast
  have s: "s = ds @ dropWhile isDigit s"
    by (simp add: ds)
  have dig: "\<forall>c\<in>set ds. isDigit c"
    unfolding ds by (auto dest: set_takeWhileD)
  from r show ?thesis
  proof
    assume "dropWhile isDigit s = '' '' @ unit @ sign @ post"
    with s have "s = [] @ ds @ '' '' @ unit @ sign @ post" by simp
    with ds dig show ?thesis unfolding hasClause_def by blast
  next
    assume "dropWhile isDigit s = '' '' @ unit @ ''s'' @ sign @ post"
    with s have "s = [] @ ds @ '' '' @ unit @ ''s'' @ sign @ post" by simp
    with ds dig show ?thesis unfolding hasClause_def by blast
  qed
qed

lemma hasClause_Cons: "hasClause unit sign s \<Longrightarrow> hasClause unit sign (c # s)"
  unfolding hasClause_def
  apply (elim exE conjE)
  subgoal for pre ds post
    apply (rule exI [of _ "c # pre"], rule exI [of _ ds], rule exI [of _ post])
    apply auto
    done
  done

lemma Find_Some_hasClause:
  "FindStringSubmatch unit sign s = Some ds \<Longrightarrow> hasClause unit sign s"
proof (induction s)
  case Nil
  then show ?case by simp
next
  case (Cons c cs)
  show ?case
  proof (cases "matchAt unit sign (c # cs)")
    case None
    with Cons show ?thesis by (simp add: hasClause_Cons)
  next
    case (Some d)
    then show ?thesis by (rule matchAt_hasClause)
  qed
qed

lemma Find_pre:
  assumes "ds \<noteq> []" "\<forall>c\<in>set ds. isDigit c"
    and "r = '' '' @ unit @ sign @ post \<or> r = '' '' @ unit @ ''s'' @ sign @ post"
  shows "FindStringSubmatch unit sign (pre @ ds @ r) \<noteq> None"
proof (induction pre)
  case Nil
  from assms(1) obtain d ds' where "ds = d # ds'" by (cases ds) auto
  then have "FindStringSubmatch unit sign (ds @ r) =
      (case matchAt unit sign (ds @ r) of Some x \<Rightarrow> Some x
        | None \<Rightarrow> FindStringSubmatch unit sign (ds' @ r))"
    by simp
  with matchAt_here [OF assms] show ?case by simp
next
  case (Cons p pre)
  then show ?case by (simp split: option.splits)
qed

lemma Find_None_iff:
  "FindStringSubmatch unit sign s = None \<longleftrightarrow> \<not> hasClause unit sign s"
proof
  assume "FindStringSubmatch unit sign s = None"
  then show "\<not> hasClause unit sign s"
    unfolding hasClause_def using Find_pre [of _ _ unit sign] by metis
next
  assume "\<not> hasClause unit sign s"
  then show "FindStringSubmatch unit sign s = None"
    using Find_Some_hasClause by (cases "FindStringSubmatch unit sign s") auto
qed


lemma Find_skip_digits:
  assumes "\<forall>c\<in>set ds. isDigit c"
    and "\<not> prefix ('' '' @ unit @ sign) r" "\<not> prefix ('' '' @ unit @ ''s'' @ sign) r"
    and "r = [] \<or> \<not> isDigit (hd r)"
  shows "FindStringSubmatch unit sign (ds @ r) = FindStringSubmatch unit sign r"
  using assms(1)
proof (induction ds)
  case Nil
  then show ?case by simp
next
  case (Cons d ds)
  have "takeWhile isDigit (d # ds @ r) = d # ds" "dropWhile isDigit (d # ds @ r) = r"
    using Cons.prems assms(4) by (cases r; simp)+
  then have "matchAt unit sign (d # ds @ r) = None"
    using assms(2,3) by (simp add: matchAt_def)
  with Cons show ?case by simp
qed

lemma hasClause_tl: "\<not> hasClause unit sign (c # s) \<Longrightarrow> \<not> hasClause unit sign s"
  using hasClause_Cons by blast

lemma Find_leftmost:
  assumes ds: "ds \<noteq> []" "\<forall>c\<in>set ds. isDigit c"
    and r: "r = '' '' @ unit @ sign @ post \<or> r = '' '' @ unit @ ''s'' @ sign @ post"
    and nd: "\<forall>c\<in>set (unit @ sign). \<not> isDigit c"
    and pre: "pre = [] \<or> \<not> isDigit (last pre)" "\<not> hasClause unit sign pre"
  shows "FindStringSubmatch unit sign (pre @ ds @ r) = Some ds"
  using pre
proof (induction pre)
  case Nil
  from ds(1) obtain d ds' where "ds = d # ds'" by (cases ds) auto
  then have "FindStringSubmatch unit sign (ds @ r) =
      (case matchAt unit sign (ds @ r) of Some x \<Rightarrow> Some x
        | None \<Rightarrow> FindStringSubmatch unit sign (ds' @ r))"
    by simp
  with matchAt_here [OF ds r] show ?case by simp
next
  case (Cons p pre)
  let ?s = "(p # pre) @ ds @ r"
  have last: "\<not> isDigit (last (p # pre))"
    using Cons.prems(1) by simp
  have IH: "FindStringSubmatch unit sign (pre @ ds @ r) = Some ds"
  proof (rule Cons.IH)
    show "pre = [] \<or> \<not> isDigit (last pre)" using last by (cases pre) auto
    show "\<not> hasClause unit sign pre" using Cons.prems(2) by (rule hasClause_tl)
  qed
  have "matchAt unit sign ?s = None"
  proof (rule ccontr)
    assume "matchAt unit sign ?s \<noteq> None"
    then obtain d where d: "matchAt unit sign ?s = Some d" by auto
    from matchAt_SomeD [OF d] have d1: "d = takeWhile isDigit ?s" "d \<noteq> []"
      by blast+
    from matchAt_SomeD [OF d] obtain post' where
      "dropWhile isDigit ?s = ('' '' @ unit @ sign) @ post' \<or>
       dropWhile isDigit ?s = ('' '' @ unit @ ''s'' @ sign) @ post'"
      by (simp only: append_assoc) blast
    then obtain lit where
      lit: "lit = '' '' @ unit @ sign \<or> lit = '' '' @ unit @ ''s'' @ sign" and
      d2: "dropWhile isDigit ?s = lit @ post'"
      by blast
    have ex: "last (p # pre) \<in> set (p # pre)"
      by (rule last_in_set) simp
    have tw: "takeWhile isDigit ?s = takeWhile isDigit (p # pre)"
      using ex last by (rule takeWhile_append1 [where P = isDigit])
    have dw: "dropWhile isDigit ?s = dropWhile isDigit (p # pre) @ ds @ r"
      using ex last by (rule dropWhile_append1 [where P = isDigit])
    define q where "q = dropWhile isDigit (p # pre)"
    have q: "q \<noteq> []" using ex last unfolding q_def dropWhile_eq_Nil_conv by blast
    have ppre: "p # pre = d @ q" unfolding q_def d1 tw by simp
    have litnd: "\<forall>c\<in>set lit. \<not> isDigit c"
      using lit nd by auto
    from d2 dw have "q @ ds @ r = lit @ post'" unfolding q_def by (simp only:)
    then have "prefix lit (q @ ds @ r)" by (rule prefixI)
    then consider "prefix lit q" | us where "lit = q @ us" "prefix us (ds @ r)" "us \<noteq> []"
      unfolding prefix_append by (cases "prefix lit q") (auto simp: prefix_def)
    then show False
    proof cases
      case 1
      then obtain rest where "q = lit @ rest" by (auto simp: prefix_def)
      with ppre have "p # pre = [] @ d @ lit @ rest" by simp
      moreover have "\<forall>c\<in>set d. isDigit c" unfolding d1 by (auto dest: set_takeWhileD)
      ultimately have "hasClause unit sign (p # pre)"
        unfolding hasClause_def using d1(2) lit
        by (intro exI [of _ "[]"] exI [of _ d] exI [of _ rest]) auto
      with Cons.prems(2) show False by contradiction
    next
      case 2
      from 2(2,3) ds(1) have "hd us = hd ds"
        by (cases us; cases ds) (auto simp: prefix_def)
      moreover have "hd us \<in> set lit" using 2(1,3) by (cases us) auto
      moreover have "isDigit (hd ds)" using ds by (cases ds) auto
      ultimately show False using litnd by auto
    qed
  qed
  with IH show ?case by simp
qed


lemma sint_eq_unat:
  fixes w :: goint
  assumes "unat w < 2 ^ 63"
  shows "sint w = int (unat w)"
proof -
  have "int (unat w) < int (2 ^ 63)" using assms by (simp only: of_nat_less_iff)
  then have lt: "int (unat w) < 2 ^ 63" by simp
  have "- (2 ^ 63) \<le> (0::int)" by simp
  also have "0 \<le> int (unat w)" by simp
  finally have ge: "- (2 ^ 63) \<le> int (unat w)" .
  have stb: "signed_take_bit 63 (int (unat w)) = int (unat w)"
    by (rule signed_take_bit_int_eq_self [OF ge lt])
  have l: "LENGTH(64) - Suc 0 = 63" by simp
  show ?thesis unfolding sint_uint l uint_nat by (rule stb)
qed

lemma unat_of_nat_goint:
  assumes "n < 2 ^ 63"
  shows "unat (of_nat n :: goint) = n"
proof -
  have "(2::nat) ^ 63 \<le> 2 ^ 64" by (rule power_increasing) simp_all
  with assms have "n < 2 ^ LENGTH(64)" by simp
  then show ?thesis by (simp only: unat_of_nat mod_less)
qed

lemma unat_Sscanf_d: "decimal ds < 2 ^ 63 \<Longrightarrow> unat (Sscanf_d ds) = decimal ds"
  unfolding Sscanf_d_def by (simp only: if_True unat_of_nat_goint)

lemma unat_Sscanf_d_less: "unat (Sscanf_d ds) < 2 ^ 63"
proof (cases "decimal ds < 2 ^ 63")
  case True
  then show ?thesis by (simp only: unat_Sscanf_d)
next
  case False
  then have "Sscanf_d ds = 0" unfolding Sscanf_d_def by (simp only: if_False)
  then show ?thesis by simp
qed

lemma sint_Sscanf_d: "0 \<le> sint (Sscanf_d ds)"
  using sint_eq_unat [OF unat_Sscanf_d_less [of ds]] by simp

lemma extract_ins:
  "fst (extractCounts line) =
     (case FindStringSubmatch ''insertion'' ''(+)'' line of None \<Rightarrow> 0 | Some g \<Rightarrow> Sscanf_d g)"
  by (simp add: extractCounts_def)

lemma extract_del:
  "snd (extractCounts line) =
     (case FindStringSubmatch ''deletion'' ''(-)'' line of None \<Rightarrow> 0 | Some g \<Rightarrow> Sscanf_d g)"
  by (simp add: extractCounts_def)

text \<open>
  Claim C5. For every line: when the line has no insertions clause the extracted
  insertions count is 0, and when it has no deletions clause the extracted deletions count
  is 0. When a clause is present, the count is read from the digits \<open>ds\<close> that stand
  directly before the unit word of the first such clause, whatever stands before
  (\<open>pre\<close>, which may hold other integers) and after (\<open>post\<close>) it; the number read is
  the decimal value of \<open>ds\<close> when that fits Go's \<^verbatim>\<open>int\<close>.
\<close>

theorem extractCounts_clauses:
  "(\<not> hasClause ''insertion'' ''(+)'' line \<longrightarrow> fst (extractCounts line) = 0) \<and>
   (\<not> hasClause ''deletion'' ''(-)'' line \<longrightarrow> snd (extractCounts line) = 0) \<and>
   (ds \<noteq> [] \<and> (\<forall>c\<in>set ds. isDigit c) \<and> (pre = [] \<or> \<not> isDigit (last pre)) \<and>
    \<not> hasClause ''insertion'' ''(+)'' pre \<and>
    (r = '' insertion(+)'' @ post \<or> r = '' insertions(+)'' @ post) \<longrightarrow>
      fst (extractCounts (pre @ ds @ r)) = Sscanf_d ds) \<and>
   (ds \<noteq> [] \<and> (\<forall>c\<in>set ds. isDigit c) \<and> (pre = [] \<or> \<not> isDigit (last pre)) \<and>
    \<not> hasClause ''deletion'' ''(-)'' pre \<and>
    (r = '' deletion(-)'' @ post \<or> r = '' deletions(-)'' @ post) \<longrightarrow>
      snd (extractCounts (pre @ ds @ r)) = Sscanf_d ds) \<and>
   (decimal ds < 2 ^ 63 \<longrightarrow> unat (Sscanf_d ds) = decimal ds)"
proof (intro conjI impI)
  assume "\<not> hasClause ''insertion'' ''(+)'' line"
  then show "fst (extractCounts line) = 0"
    by (simp add: extract_ins Find_None_iff [symmetric])
next
  assume "\<not> hasClause ''deletion'' ''(-)'' line"
  then show "snd (extractCounts line) = 0"
    by (simp add: extract_del Find_None_iff [symmetric])
next
  assume a: "ds \<noteq> [] \<and> (\<forall>c\<in>set ds. isDigit c) \<and> (pre = [] \<or> \<not> isDigit (last pre)) \<and>
    \<not> hasClause ''insertion'' ''(+)'' pre \<and>
    (r = '' insertion(+)'' @ post \<or> r = '' insertions(+)'' @ post)"
  have "FindStringSubmatch ''insertion'' ''(+)'' (pre @ ds @ r) = Some ds"
  proof (rule Find_leftmost [where post = post])
    show "\<forall>c\<in>set (''insertion'' @ ''(+)''). \<not> isDigit c" by (simp add: isDigit_iff)
  qed (use a in auto)
  then show "fst (extractCounts (pre @ ds @ r)) = Sscanf_d ds"
    by (simp add: extract_ins)
next
  assume a: "ds \<noteq> [] \<and> (\<forall>c\<in>set ds. isDigit c) \<and> (pre = [] \<or> \<not> isDigit (last pre)) \<and>
    \<not> hasClause ''deletion'' ''(-)'' pre \<and>
    (r = '' deletion(-)'' @ post \<or> r = '' deletions(-)'' @ post)"
  have "FindStringSubmatch ''deletion'' ''(-)'' (pre @ ds @ r) = Some ds"
  proof (rule Find_leftmost [where post = post])
    show "\<forall>c\<in>set (''deletion'' @ ''(-)''). \<not> isDigit c" by (simp add: isDigit_iff)
  qed (use a in auto)
  then show "snd (extractCounts (pre @ ds @ r)) = Sscanf_d ds"
    by (simp add: extract_del)
next
  assume "decimal ds < 2 ^ 63"
  then show "unat (Sscanf_d ds) = decimal ds" by (rule unat_Sscanf_d)
qed

lemma Find_ins_ex: "FindStringSubmatch ''insertion'' ''(+)'' '' 2 files changed, '' = None"
  by (simp add: matchAt_def isDigit_iff)

lemma Find_del_ex:
  "FindStringSubmatch ''deletion'' ''(-)'' '' 2 files changed, 13 insertions(+), '' = None"
  by (simp add: matchAt_def isDigit_iff)

text \<open>The hypotheses of C5 at lines as git prints them.\<close>

theorem extractCounts_clauses_witness:
  "\<not> hasClause ''insertion'' ''(+)'' '' 2 files changed, '' \<and>
   fst (extractCounts '' 2 files changed, '') = 0 \<and>
   \<not> hasClause ''deletion'' ''(-)'' '' 2 files changed, 13 insertions(+), '' \<and>
   snd (extractCounts '' 2 files changed, 13 insertions(+), '') = 0 \<and>
   extractCounts '' 2 files changed, 13 insertions(+), 1 deletion(-)'' = (13, 1)"
proof -
  have i: "\<not> hasClause ''insertion'' ''(+)'' '' 2 files changed, ''"
    by (rule Find_None_iff [THEN iffD1, OF Find_ins_ex])
  have d: "\<not> hasClause ''deletion'' ''(-)'' '' 2 files changed, 13 insertions(+), ''"
    by (rule Find_None_iff [THEN iffD1, OF Find_del_ex])
  have n13: "Sscanf_d ''13'' = 13" and n1: "Sscanf_d ''1'' = 1"
    by (simp_all add: Sscanf_d_def decimal_def digitVal_def)
  note t1 = extractCounts_clauses [of "'' 2 files changed, ''" "''13''" "'' 2 files changed, ''"
      "'' insertions(+), 1 deletion(-)''" "'', 1 deletion(-)''"]
  note t2 = extractCounts_clauses [of "'' 2 files changed, 13 insertions(+), ''" "''1''"
      "'' 2 files changed, 13 insertions(+), ''" "'' deletion(-)''" "[]"]
  have a: "fst (extractCounts '' 2 files changed, 13 insertions(+), 1 deletion(-)'') = 13"
    using t1 i n13 by (simp add: isDigit_iff)
  have b: "snd (extractCounts '' 2 files changed, 13 insertions(+), 1 deletion(-)'') = 1"
    using t2 d n1 by (simp add: isDigit_iff)
  have c: "fst (extractCounts '' 2 files changed, '') = 0" using t1 i by simp
  have e: "snd (extractCounts '' 2 files changed, 13 insertions(+), '') = 0" using t2 d by simp
  from a b have "extractCounts '' 2 files changed, 13 insertions(+), 1 deletion(-)'' = (13, 1)"
    by (simp add: prod_eq_iff)
  with i d c e show ?thesis by simp
qed

section \<open>The parser and the tuples\<close>

lemma addMonth_addMonth:
  "addMonth mk c (addMonth mk u months) = addMonth mk (fst u + fst c, snd u + snd c) months"
  by (auto simp: addMonth_def fun_eq_iff add.assoc split: option.splits)

lemma addMonth_zero_add:
  "addMonth mk (0 + fst c, 0 + snd c) months = addMonth mk c months"
  by simp

lemma accumulate_addCounts:
  "accumulate mk (stats (addCounts c s)) (gb (addCounts c s)) =
   foldTuple mk (accumulate mk (stats s) (gb s)) (author s, c)"
proof -
  have "Stats (accumulate mk (stats (addCounts c s)) (gb (addCounts c s))) a =
        Stats (foldTuple mk (accumulate mk (stats s) (gb s)) (author s, c)) a" for a
    by (cases "stats s (author s)")
      (auto simp: accumulate_def addCounts_def foldTuple_def Let_def addMonth_addMonth
         split: option.splits)
  then have "Stats (accumulate mk (stats (addCounts c s)) (gb (addCounts c s))) =
        Stats (foldTuple mk (accumulate mk (stats s) (gb s)) (author s, c))"
    by (rule ext)
  moreover have "totalInsertions (accumulate mk (stats (addCounts c s)) (gb (addCounts c s))) =
        totalInsertions (foldTuple mk (accumulate mk (stats s) (gb s)) (author s, c))"
    by (simp add: accumulate_def addCounts_def foldTuple_def Let_def)
  moreover have "totalDeletions (accumulate mk (stats (addCounts c s)) (gb (addCounts c s))) =
        totalDeletions (foldTuple mk (accumulate mk (stats s) (gb s)) (author s, c))"
    by (simp add: accumulate_def addCounts_def foldTuple_def Let_def)
  ultimately show ?thesis by simp
qed

lemma accumulate_lines:
  "accumulate mk (stats (foldl lineStep s ls)) (gb (foldl lineStep s ls)) =
   foldl (foldTuple mk) (accumulate mk (stats s) (gb s)) (attributionTuples (author s) ls)"
proof (induction ls arbitrary: s)
  case Nil
  then show ?case by simp
next
  case (Cons l ls)
  show ?case
  proof (cases "l = []")
    case True
    with Cons [of s] show ?thesis by (simp add: lineStep_def)
  next
    case ne: False
    show ?thesis
    proof (cases "isStatLine l")
      case True
      have a: "author (addCounts (extractCounts l) s) = author s"
        by (simp add: addCounts_def Let_def)
      from ne True Cons [of "addCounts (extractCounts l) s"] show ?thesis
        by (simp add: lineStep_def a accumulate_addCounts)
    next
      case False
      with ne Cons [of "s\<lparr>author := l\<rparr>"] show ?thesis
        by (simp add: lineStep_def)
    qed
  qed
qed

lemma accumulate_empty: "accumulate mk Map.empty g = g"
  by (simp add: accumulate_def)

lemma processOutput_tuples:
  "processOutput mk output g = foldl (foldTuple mk) g (attributionTuples [] (Split output))"
  using accumulate_lines [of mk "\<lparr>author = [], stats = Map.empty, gb = g\<rparr>" "Split output"]
  by (simp add: processOutput_def scanLines_def Let_def accumulate_empty)


subsection \<open>One tuple per statistics line, for the latest author\<close>

lemma length_attributionTuples:
  "length (attributionTuples a ls) = length (filter (\<lambda>l. l \<noteq> [] \<and> isStatLine l) ls)"
  by (induction ls arbitrary: a) auto

lemma attributionTuples_author:
  "al \<noteq> [] \<Longrightarrow> \<not> isStatLine al \<Longrightarrow>
   attributionTuples a (pre @ al # rest) = attributionTuples a pre @ attributionTuples al rest"
  by (induction pre arbitrary: a) auto

lemma attributionTuples_same_author:
  "\<forall>l\<in>set mid. l = [] \<or> isStatLine l \<Longrightarrow>
   attributionTuples al (mid @ rest) = attributionTuples al mid @ attributionTuples al rest"
  by (induction mid) auto

lemma attributionTuples_fst:
  "\<forall>l\<in>set mid. l = [] \<or> isStatLine l \<Longrightarrow> \<forall>t\<in>set (attributionTuples al mid). fst t = al"
  by (induction mid) auto

lemma attributionTuples_decompose:
  assumes "al \<noteq> []" "\<not> isStatLine al" "\<forall>l\<in>set mid. l = [] \<or> isStatLine l"
    and "sl \<noteq> []" "isStatLine sl"
  shows "attributionTuples a (pre @ al # mid @ sl # post) =
    attributionTuples a pre @ attributionTuples al mid @
    (al, extractCounts sl) # attributionTuples al post"
  using assms by (simp add: attributionTuples_author attributionTuples_same_author)

subsection \<open>Splitting into lines\<close>

lemma Split_not_Nil [simp]: "Split s \<noteq> []"
  by (induction s) auto

lemma Split_line:
  "CHR 0x0A \<notin> set xs \<Longrightarrow> Split (xs @ CHR 0x0A # rest) = xs # Split rest"
  by (induction xs) auto

lemma Split_last: "CHR 0x0A \<notin> set xs \<Longrightarrow> Split xs = [xs]"
  by (induction xs) auto

subsection \<open>Decimal numbers\<close>

lemma isDigit_char_of: "(d::nat) < 10 \<Longrightarrow> isDigit (char_of (48 + d))"
  by (simp add: isDigit_iff)

lemma digitVal_char_of: "(d::nat) < 10 \<Longrightarrow> digitVal (char_of (48 + d)) = d"
  by (simp add: digitVal_def)

lemma decimal_snoc: "decimal (ds @ [c]) = 10 * decimal ds + digitVal c"
  by (simp add: decimal_def)

lemma decimal_showNat: "decimal (showNat n) = n"
proof (induction n rule: showNat.induct)
  case (1 n)
  show ?case
  proof (cases "n < 10")
    case True
    then show ?thesis
      by (subst showNat.simps) (simp add: decimal_def digitVal_char_of)
  next
    case False
    with 1 have "decimal (showNat (n div 10)) = n div 10" by simp
    with False show ?thesis
      by (subst showNat.simps) (simp add: decimal_snoc digitVal_char_of)
  qed
qed

lemma showNat_digits: "\<forall>c\<in>set (showNat n). isDigit c"
proof (induction n rule: showNat.induct)
  case (1 n)
  show ?case
  proof (cases "n < 10")
    case True
    then show ?thesis by (subst showNat.simps) (simp add: isDigit_char_of)
  next
    case False
    with 1 have "\<forall>c\<in>set (showNat (n div 10)). isDigit c" by simp
    with False show ?thesis by (subst showNat.simps) (simp add: isDigit_char_of)
  qed
qed

lemma showNat_not_Nil: "showNat n \<noteq> []"
  by (subst showNat.simps) simp

lemma Sscanf_d_showNat: "n < 2 ^ 63 \<Longrightarrow> Sscanf_d (showNat n) = of_nat n"
  unfolding Sscanf_d_def decimal_showNat by (simp only: if_True)


subsection \<open>The summary line of git\<close>

lemma Find_literal:
  "\<forall>c\<in>set lit. \<not> isDigit c \<Longrightarrow>
   FindStringSubmatch unit sign (lit @ rest) = FindStringSubmatch unit sign rest"
  by (induction lit) (auto simp: matchAt_def)

lemma Find_here:
  assumes "ds \<noteq> []" "\<forall>c\<in>set ds. isDigit c"
    and "r = '' '' @ unit @ sign @ post \<or> r = '' '' @ unit @ ''s'' @ sign @ post"
  shows "FindStringSubmatch unit sign (ds @ r) = Some ds"
proof -
  from assms(1) obtain d ds' where "ds = d # ds'" by (cases ds) auto
  then have "FindStringSubmatch unit sign (ds @ r) =
      (case matchAt unit sign (ds @ r) of Some x \<Rightarrow> Some x
        | None \<Rightarrow> FindStringSubmatch unit sign (ds' @ r))"
    by simp
  with matchAt_here [OF assms] show ?thesis by simp
qed

lemma plural_cases: "plural n = [] \<or> plural n = ''s''"
  by (simp add: plural_def)

lemma Find_ins_shortstat:
  "FindStringSubmatch ''insertion'' ''(+)'' (shortstat f n m) = Some (showNat n)"
proof -
  let ?F = "FindStringSubmatch ''insertion'' ''(+)''"
  define post where "post = '', '' @ showNat m @ '' deletion'' @ plural m @ ''(-)''"
  define r where "r = '' insertion'' @ plural n @ ''(+)'' @ post"
  define l1 where "l1 = '' file'' @ plural f @ '' changed, ''"
  have sh: "shortstat f n m = '' '' @ showNat f @ l1 @ showNat n @ r"
    by (simp add: shortstat_def r_def l1_def post_def)
  have l1: "\<forall>c\<in>set l1. \<not> isDigit c"
    using plural_cases [of f] by (auto simp: l1_def isDigit_iff)
  have "?F (shortstat f n m) = ?F (showNat f @ l1 @ showNat n @ r)"
    unfolding sh by (rule Find_literal) simp
  also have "\<dots> = ?F (l1 @ showNat n @ r)"
    by (rule Find_skip_digits [OF showNat_digits]) (simp_all add: l1_def)
  also have "\<dots> = ?F (showNat n @ r)"
    by (rule Find_literal [OF l1])
  also have "\<dots> = Some (showNat n)"
    by (rule Find_here [OF showNat_not_Nil showNat_digits, where post = post])
      (use plural_cases [of n] in \<open>auto simp: r_def\<close>)
  finally show ?thesis .
qed

lemma Find_del_shortstat:
  "FindStringSubmatch ''deletion'' ''(-)'' (shortstat f n m) = Some (showNat m)"
proof -
  let ?F = "FindStringSubmatch ''deletion'' ''(-)''"
  define r where "r = '' deletion'' @ plural m @ ''(-)''"
  define l2 where "l2 = '' insertion'' @ plural n @ ''(+), ''"
  define l1 where "l1 = '' file'' @ plural f @ '' changed, ''"
  have sh: "shortstat f n m = '' '' @ showNat f @ l1 @ showNat n @ l2 @ showNat m @ r"
    by (simp add: shortstat_def r_def l1_def l2_def)
  have l1: "\<forall>c\<in>set l1. \<not> isDigit c"
    using plural_cases [of f] by (auto simp: l1_def isDigit_iff)
  have l2: "\<forall>c\<in>set l2. \<not> isDigit c"
    using plural_cases [of n] by (auto simp: l2_def isDigit_iff)
  have "?F (shortstat f n m) = ?F (showNat f @ l1 @ showNat n @ l2 @ showNat m @ r)"
    unfolding sh by (rule Find_literal) simp
  also have "\<dots> = ?F (l1 @ showNat n @ l2 @ showNat m @ r)"
    by (rule Find_skip_digits [OF showNat_digits]) (simp_all add: l1_def)
  also have "\<dots> = ?F (showNat n @ l2 @ showNat m @ r)"
    by (rule Find_literal [OF l1])
  also have "\<dots> = ?F (l2 @ showNat m @ r)"
    by (rule Find_skip_digits [OF showNat_digits]) (simp_all add: l2_def)
  also have "\<dots> = ?F (showNat m @ r)"
    by (rule Find_literal [OF l2])
  also have "\<dots> = Some (showNat m)"
    by (rule Find_here [OF showNat_not_Nil showNat_digits, where post = "[]"])
      (use plural_cases [of m] in \<open>auto simp: r_def\<close>)
  finally show ?thesis .
qed

lemma extractCounts_shortstat:
  assumes "n < 2 ^ 63" "m < 2 ^ 63"
  shows "extractCounts (shortstat f n m) = (of_nat n, of_nat m)"
  unfolding extractCounts_def Let_def Find_ins_shortstat Find_del_shortstat option.case
    Sscanf_d_showNat [OF assms(1)] Sscanf_d_showNat [OF assms(2)] ..

lemma Contains_append: "Contains (xs @ sub @ ys) sub"
proof (induction xs)
  case Nil
  show ?case
  proof (cases "sub @ ys")
    case Nil
    then show ?thesis by simp
  next
    case (Cons a list)
    have "prefix sub (sub @ ys)" by simp
    with Cons show ?thesis by simp
  qed
next
  case (Cons x xs)
  then show ?case by simp
qed

lemma isStatLine_shortstat: "isStatLine (shortstat f n m)"
proof (cases "f = 1")
  case True
  have "Contains (('' '' @ showNat f @ '' '') @ ''file changed'' @
          ('', '' @ showNat n @ '' insertion'' @ plural n @ ''(+), '' @
           showNat m @ '' deletion'' @ plural m @ ''(-)'')) ''file changed''"
    by (rule Contains_append)
  with True show ?thesis by (simp add: isStatLine_def shortstat_def plural_def)
next
  case False
  have "Contains (('' '' @ showNat f @ '' '') @ ''files changed'' @
          ('', '' @ showNat n @ '' insertion'' @ plural n @ ''(+), '' @
           showNat m @ '' deletion'' @ plural m @ ''(-)'')) ''files changed''"
    by (rule Contains_append)
  with False show ?thesis by (simp add: isStatLine_def shortstat_def plural_def)
qed

lemma newline_not_digit: "\<not> isDigit (CHR 0x0A)"
  by (simp add: isDigit_iff)

lemma shortstat_no_newline: "CHR 0x0A \<notin> set (shortstat f n m)"
  using showNat_digits [of f] showNat_digits [of n] showNat_digits [of m] newline_not_digit
  by (auto simp: shortstat_def plural_def)

lemma shortstat_not_Nil: "shortstat f n m \<noteq> []"
  by (simp add: shortstat_def)

lemma tuples_single:
  assumes "isAuthorLine al" "n < 2 ^ 63" "m < 2 ^ 63"
  shows "attributionTuples [] (Split (al @ [CHR 0x0A] @ shortstat f n m @ [CHR 0x0A])) =
    [(al, of_nat n, of_nat m)]"
proof -
  from assms(1) have al: "al \<noteq> []" "CHR 0x0A \<notin> set al" "\<not> isStatLine al"
    by (simp_all add: isAuthorLine_def)
  have "Split (al @ [CHR 0x0A] @ shortstat f n m @ [CHR 0x0A]) = [al, shortstat f n m, []]"
    using Split_line [OF al(2)] Split_line [OF shortstat_no_newline] by simp
  then show ?thesis
    using al isStatLine_shortstat [of f n m] shortstat_not_Nil [of f n m]
      extractCounts_shortstat [OF assms(2,3)]
    by simp
qed


subsection \<open>The example\<close>

lemma Split_Cons:
  "Split (c # cs) =
     (if c = CHR 0x0A then [] # Split cs
      else (case Split cs of l # ls \<Rightarrow> (c # l) # ls))"
  by (cases "Split cs") auto

lemma Split_exampleLog:
  "Split exampleLog =
    [''alice@x'', '' 1 file changed, 3 insertions(+)'',
     '' 2 file changed, 1 insertion(+), 1 deletion(-)'', ''bob@x'',
     '' 1 file changed, 5 insertions(+)'', []]"
  by (simp add: exampleLog_def Split_Cons del: Split.simps(2))

lemma Sscanf_d_small:
  "Sscanf_d ''1'' = 1" "Sscanf_d ''3'' = 3" "Sscanf_d ''5'' = 5"
  by (simp_all add: Sscanf_d_def decimal_def digitVal_def)

lemma example_lines:
  "\<not> isStatLine ''alice@x''" "\<not> isStatLine ''bob@x''"
  "isStatLine '' 1 file changed, 3 insertions(+)''"
  "isStatLine '' 2 file changed, 1 insertion(+), 1 deletion(-)''"
  "isStatLine '' 1 file changed, 5 insertions(+)''"
  by (simp_all add: isStatLine_def)

lemma example_counts:
  "extractCounts '' 1 file changed, 3 insertions(+)'' = (3, 0)"
  "extractCounts '' 2 file changed, 1 insertion(+), 1 deletion(-)'' = (1, 1)"
  "extractCounts '' 1 file changed, 5 insertions(+)'' = (5, 0)"
  by (simp_all add: extractCounts_def matchAt_def isDigit_iff Sscanf_d_small)

lemma tuples_exampleLog:
  "attributionTuples [] (Split exampleLog) =
    [(''alice@x'', 3, 0), (''alice@x'', 1, 1), (''bob@x'', 5, 0)]"
  by (simp add: Split_exampleLog example_lines example_counts)

lemma processOutput_exampleLog:
  "processOutput mk exampleLog gbInit =
    \<lparr>Stats = [''alice@x'' \<mapsto> [mk \<mapsto> \<lparr>Insertions = 4, Deletions = 1\<rparr>],
              ''bob@x'' \<mapsto> [mk \<mapsto> \<lparr>Insertions = 5, Deletions = 0\<rparr>]],
     totalInsertions = 9, totalDeletions = 1\<rparr>"
  unfolding processOutput_tuples tuples_exampleLog
  by (simp add: foldTuple_def addMonth_def gbInit_def fun_upd_twist)


text \<open>
  Claim C1. The effect of processDir on the statistics is that of folding the attribution
  tuples of the lines of the output; there is exactly one tuple per non-empty statistics
  line; the tuple of a statistics line \<open>sl\<close> carries the latest author line \<open>al\<close>
  before it (no author line stands in \<open>mid\<close>, between the two), as do the tuples of the
  statistics lines in between. For the example of the specification the tuples are
  (alice@x, 3, 0), (alice@x, 1, 1), (bob@x, 5, 0), the author key being the whole author
  line. For one author line followed by one summary line as git prints it, with \<open>n\<close>
  insertions and \<open>m\<close> deletions that fit Go's \<^verbatim>\<open>int\<close>, the only tuple is
  \<open>(al, n, m)\<close>.
\<close>

theorem parser_attribution:
  "processOutput mk output g = foldl (foldTuple mk) g (attributionTuples [] (Split output)) \<and>
   length (attributionTuples a ls) = length (filter (\<lambda>l. l \<noteq> [] \<and> isStatLine l) ls) \<and>
   (al \<noteq> [] \<and> \<not> isStatLine al \<and> (\<forall>l\<in>set mid. l = [] \<or> isStatLine l) \<and>
    sl \<noteq> [] \<and> isStatLine sl \<longrightarrow>
      attributionTuples a (pre @ al # mid @ sl # post) =
        attributionTuples a pre @ attributionTuples al mid @
        (al, extractCounts sl) # attributionTuples al post \<and>
      (\<forall>t\<in>set (attributionTuples al mid). fst t = al)) \<and>
   attributionTuples [] (Split exampleLog) =
     [(''alice@x'', 3, 0), (''alice@x'', 1, 1), (''bob@x'', 5, 0)] \<and>
   (isAuthorLine al \<and> n < 2 ^ 63 \<and> m < 2 ^ 63 \<longrightarrow>
      attributionTuples [] (Split (al @ [CHR 0x0A] @ shortstat f n m @ [CHR 0x0A])) =
        [(al, of_nat n, of_nat m)])"
proof (intro conjI impI)
  show "processOutput mk output g =
      foldl (foldTuple mk) g (attributionTuples [] (Split output))"
    by (rule processOutput_tuples)
  show "length (attributionTuples a ls) = length (filter (\<lambda>l. l \<noteq> [] \<and> isStatLine l) ls)"
    by (rule length_attributionTuples)
  show "attributionTuples [] (Split exampleLog) =
      [(''alice@x'', 3, 0), (''alice@x'', 1, 1), (''bob@x'', 5, 0)]"
    by (rule tuples_exampleLog)
next
  assume "al \<noteq> [] \<and> \<not> isStatLine al \<and> (\<forall>l\<in>set mid. l = [] \<or> isStatLine l) \<and>
    sl \<noteq> [] \<and> isStatLine sl"
  then show "attributionTuples a (pre @ al # mid @ sl # post) =
        attributionTuples a pre @ attributionTuples al mid @
        (al, extractCounts sl) # attributionTuples al post"
    by (intro attributionTuples_decompose) simp_all
next
  assume "al \<noteq> [] \<and> \<not> isStatLine al \<and> (\<forall>l\<in>set mid. l = [] \<or> isStatLine l) \<and>
    sl \<noteq> [] \<and> isStatLine sl"
  then show "\<forall>t\<in>set (attributionTuples al mid). fst t = al"
    by (intro attributionTuples_fst) simp
next
  assume "isAuthorLine al \<and> n < 2 ^ 63 \<and> m < 2 ^ 63"
  then show "attributionTuples [] (Split (al @ [CHR 0x0A] @ shortstat f n m @ [CHR 0x0A])) =
      [(al, of_nat n, of_nat m)]"
    by (intro tuples_single) simp_all
qed

text \<open>The hypotheses of C1 at the author line bob@x and the summary of 5 and 2 lines.\<close>

theorem parser_attribution_witness:
  "isAuthorLine ''bob@x'' \<and> (5::nat) < 2 ^ 63 \<and> (2::nat) < 2 ^ 63 \<and>
   isStatLine '' 1 file changed, 5 insertions(+)'' \<and>
   attributionTuples [] [''bob@x'', '' 1 file changed, 5 insertions(+)''] = [(''bob@x'', 5, 0)] \<and>
   attributionTuples [] (Split (''bob@x'' @ [CHR 0x0A] @ shortstat 1 5 2 @ [CHR 0x0A])) =
     [(''bob@x'', 5, 2)]"
proof -
  have a: "isAuthorLine ''bob@x''"
    by (simp add: isAuthorLine_def example_lines)
  have n: "(5::nat) < 2 ^ 63" "(2::nat) < 2 ^ 63" by simp_all
  note t = parser_attribution [of _ _ _ _ "[]" "''bob@x''" "[]"
      "'' 1 file changed, 5 insertions(+)''" "[]" "[]" 5 2 1]
  from t a n have "attributionTuples [] (Split (''bob@x'' @ [CHR 0x0A] @ shortstat 1 5 2 @ [CHR 0x0A])) =
     [(''bob@x'', 5, 2)]"
    by simp
  moreover from t example_lines example_counts
  have "attributionTuples [] [''bob@x'', '' 1 file changed, 5 insertions(+)''] = [(''bob@x'', 5, 0)]"
    by simp
  ultimately show ?thesis using a n example_lines by simp
qed

section \<open>Totals, cells and the order of folding\<close>

subsection \<open>Sums over the entries of a map\<close>

lemma sum_map_upd:
  fixes h :: "'v \<Rightarrow> 'n::comm_monoid_add"
  assumes "finite (dom f)"
  shows "(\<Sum>x\<in>dom (f(k \<mapsto> v)). h (the ((f(k \<mapsto> v)) x))) +
           (case f k of None \<Rightarrow> 0 | Some u \<Rightarrow> h u) =
         (\<Sum>x\<in>dom f. h (the (f x))) + h v"
proof (cases "f k")
  case None
  then have k: "k \<notin> dom f" by auto
  let ?g = "\<lambda>x. h (the ((f(k \<mapsto> v)) x))"
  have "(\<Sum>x\<in>dom (f(k \<mapsto> v)). ?g x) = (\<Sum>x\<in>insert k (dom f). ?g x)"
    by simp
  also have "\<dots> = ?g k + (\<Sum>x\<in>dom f. ?g x)"
    by (rule sum.insert [OF assms k])
  also have "(\<Sum>x\<in>dom f. ?g x) = (\<Sum>x\<in>dom f. h (the (f x)))"
    using k by (intro sum.cong) auto
  finally have e: "(\<Sum>x\<in>dom (f(k \<mapsto> v)). ?g x) = ?g k + (\<Sum>x\<in>dom f. h (the (f x)))" .
  show ?thesis unfolding e using None by (simp add: add.commute)
next
  case (Some u)
  then have k: "k \<in> dom f" by auto
  then have d: "dom (f(k \<mapsto> v)) = insert k (dom f - {k})" by auto
  have fin: "finite (dom f - {k})" using assms by simp
  let ?g = "\<lambda>x. h (the ((f(k \<mapsto> v)) x))"
  have "(\<Sum>x\<in>dom (f(k \<mapsto> v)). ?g x) = (\<Sum>x\<in>insert k (dom f - {k}). ?g x)"
    by (simp only: d)
  also have "\<dots> = ?g k + (\<Sum>x\<in>dom f - {k}. ?g x)"
    by (rule sum.insert [OF fin]) simp
  also have "(\<Sum>x\<in>dom f - {k}. ?g x) = (\<Sum>x\<in>dom f - {k}. h (the (f x)))"
    by (intro sum.cong) auto
  finally have new: "(\<Sum>x\<in>dom (f(k \<mapsto> v)). ?g x) =
      ?g k + (\<Sum>x\<in>dom f - {k}. h (the (f x)))" .
  have old: "(\<Sum>x\<in>dom f. h (the (f x))) = h u + (\<Sum>x\<in>dom f - {k}. h (the (f x)))"
    using sum.remove [OF assms k, of "\<lambda>x. h (the (f x))"] Some by simp
  show ?thesis unfolding new old using Some by (simp add: ac_simps)
qed

lemma rowSum_empty [simp]: "rowSum h Map.empty = 0"
  by (simp add: rowSum_def)

lemma dom_addMonth: "dom (addMonth mk c months) = insert mk (dom months)"
  by (simp add: addMonth_def Let_def)

lemma addMonth_apply:
  "addMonth mk c months m =
    (if m = mk then
       Some \<lparr>Insertions = (case months mk of None \<Rightarrow> 0 | Some u \<Rightarrow> Insertions u) + fst c,
             Deletions = (case months mk of None \<Rightarrow> 0 | Some u \<Rightarrow> Deletions u) + snd c\<rparr>
     else months m)"
  by (simp add: addMonth_def Let_def split: option.splits)

lemma rowSum_addMonth:
  fixes h :: "ChangesStats \<Rightarrow> 'n::comm_monoid_add"
  assumes "finite (dom months)"
  shows "rowSum h (addMonth mk c months) + (case months mk of None \<Rightarrow> 0 | Some u \<Rightarrow> h u) =
    rowSum h months + h (the (addMonth mk c months mk))"
proof -
  have "addMonth mk c months = months(mk \<mapsto> the (addMonth mk c months mk))"
    by (simp add: addMonth_def Let_def)
  then show ?thesis
    unfolding rowSum_def
    using sum_map_upd [OF assms, where k = mk and v = "the (addMonth mk c months mk)" and h = h]
    by simp
qed


subsection \<open>One tuple folded into the statistics\<close>

lemma Stats_foldTuple:
  "Stats (foldTuple mk g t) = (Stats g)(fst t \<mapsto> addMonth mk (snd t) (row g (fst t)))"
  by (simp add: foldTuple_def row_def)

lemma finite_dom_row: "finDoms g \<Longrightarrow> finite (dom (row g a))"
  by (auto simp: finDoms_def row_def split: option.splits)

lemma finDoms_gbInit: "finDoms gbInit"
  by (simp add: finDoms_def gbInit_def)

lemma finDoms_foldTuple: "finDoms g \<Longrightarrow> finDoms (foldTuple mk g t)"
  using finite_dom_row [of g "fst t"]
  by (auto simp: finDoms_def Stats_foldTuple dom_addMonth split: if_splits)

lemma cellSum_foldTuple:
  fixes h :: "ChangesStats \<Rightarrow> 'n::cancel_comm_monoid_add"
  assumes "finDoms g"
  shows "cellSum h (foldTuple mk g t) +
           (case row g (fst t) mk of None \<Rightarrow> 0 | Some u \<Rightarrow> h u) =
         cellSum h g + h (the (addMonth mk (snd t) (row g (fst t)) mk))"
proof -
  let ?a = "fst t"
  let ?new = "addMonth mk (snd t) (row g ?a)"
  let ?R = "case Stats g ?a of None \<Rightarrow> 0 | Some months \<Rightarrow> rowSum h months"
  let ?old = "case row g ?a mk of None \<Rightarrow> 0 | Some u \<Rightarrow> h u"
  from assms have fin: "finite (dom (Stats g))" by (simp add: finDoms_def)
  have outer: "cellSum h (foldTuple mk g t) + ?R = cellSum h g + rowSum h ?new"
    unfolding cellSum_def Stats_foldTuple
    using sum_map_upd [OF fin, where k = ?a and v = ?new and h = "rowSum h"] by simp
  have inner: "rowSum h ?new + ?old = rowSum h (row g ?a) + h (the (?new mk))"
    by (rule rowSum_addMonth [OF finite_dom_row [OF assms]])
  have R: "rowSum h (row g ?a) = ?R"
    by (simp add: row_def split: option.splits)
  have "(cellSum h (foldTuple mk g t) + ?old) + ?R = (cellSum h (foldTuple mk g t) + ?R) + ?old"
    by (simp add: ac_simps)
  also have "\<dots> = (cellSum h g + rowSum h ?new) + ?old"
    by (simp only: outer)
  also have "\<dots> = cellSum h g + (rowSum h ?new + ?old)"
    by (simp add: ac_simps)
  also have "\<dots> = (cellSum h g + h (the (?new mk))) + ?R"
    unfolding inner R by (simp add: ac_simps)
  finally show ?thesis by (rule add_right_imp_eq)
qed

lemma addMonth_Insertions:
  "Insertions (the (addMonth mk c months mk)) =
     (case months mk of None \<Rightarrow> 0 | Some u \<Rightarrow> Insertions u) + fst c"
  by (simp add: addMonth_apply)

lemma addMonth_Deletions:
  "Deletions (the (addMonth mk c months mk)) =
     (case months mk of None \<Rightarrow> 0 | Some u \<Rightarrow> Deletions u) + snd c"
  by (simp add: addMonth_apply)

lemma cellInsertions_foldTuple:
  assumes "finDoms g"
  shows "cellInsertions (foldTuple mk g t) = cellInsertions g + fst (snd t)"
proof -
  let ?old = "case row g (fst t) mk of None \<Rightarrow> 0 | Some u \<Rightarrow> Insertions u"
  have "cellInsertions (foldTuple mk g t) + ?old = (cellInsertions g + fst (snd t)) + ?old"
    unfolding cellInsertions_def
    using cellSum_foldTuple [OF assms, where h = Insertions and mk = mk and t = t]
    by (simp add: addMonth_Insertions ac_simps)
  then show ?thesis by (rule add_right_imp_eq)
qed

lemma cellDeletions_foldTuple:
  assumes "finDoms g"
  shows "cellDeletions (foldTuple mk g t) = cellDeletions g + snd (snd t)"
proof -
  let ?old = "case row g (fst t) mk of None \<Rightarrow> 0 | Some u \<Rightarrow> Deletions u"
  have "cellDeletions (foldTuple mk g t) + ?old = (cellDeletions g + snd (snd t)) + ?old"
    unfolding cellDeletions_def
    using cellSum_foldTuple [OF assms, where h = Deletions and mk = mk and t = t]
    by (simp add: addMonth_Deletions ac_simps)
  then show ?thesis by (rule add_right_imp_eq)
qed

lemma consistent_gbInit: "consistent gbInit"
  by (simp add: consistent_def finDoms_gbInit)
    (simp add: gbInit_def cellInsertions_def cellDeletions_def cellSum_def)

lemma consistent_foldTuple: "consistent g \<Longrightarrow> consistent (foldTuple mk g t)"
  unfolding consistent_def
  by (simp add: finDoms_foldTuple cellInsertions_foldTuple cellDeletions_foldTuple)
    (simp add: foldTuple_def)

lemma consistent_tuples: "consistent g \<Longrightarrow> consistent (foldl (foldTuple mk) g ts)"
  by (induction ts arbitrary: g) (simp_all add: consistent_foldTuple)

lemma consistent_foldScan: "consistent g \<Longrightarrow> consistent (foldScan g scan)"
  by (simp add: foldScan_def processOutput_tuples consistent_tuples)

lemma consistent_scans: "consistent g \<Longrightarrow> consistent (foldl foldScan g scans)"
  by (induction scans arbitrary: g) (simp_all add: consistent_foldScan)

text \<open>
  Claim C2. After every fold of a scan into the statistics, that is for the statistics
  reached from the initial ones by any list of scans, \<open>totalInsertions\<close> is the sum of
  the insertions of all (author, month) cells and \<open>totalDeletions\<close> the sum of their
  deletions, the sums being taken in Go's \<^verbatim>\<open>int\<close>.
\<close>

theorem totals_consistent:
  "totalInsertions (foldl foldScan gbInit scans) = cellInsertions (foldl foldScan gbInit scans) \<and>
   totalDeletions (foldl foldScan gbInit scans) = cellDeletions (foldl foldScan gbInit scans)"
  using consistent_scans [OF consistent_gbInit, of scans] by (simp add: consistent_def)


subsection \<open>The order of the tuples and of the scans\<close>

lemma row_foldTuple:
  "row (foldTuple mk g t) a = (if a = fst t then addMonth mk (snd t) (row g a) else row g a)"
  by (simp add: row_def Stats_foldTuple)

lemma addMonth_commute:
  "addMonth mk1 c1 (addMonth mk2 c2 months) = addMonth mk2 c2 (addMonth mk1 c1 months)"
  by (rule ext) (simp add: addMonth_apply ac_simps)

lemma foldTuple_commute:
  "foldTuple mk1 (foldTuple mk2 g t2) t1 = foldTuple mk2 (foldTuple mk1 g t1) t2"
proof -
  have "Stats (foldTuple mk1 (foldTuple mk2 g t2) t1) a =
        Stats (foldTuple mk2 (foldTuple mk1 g t1) t2) a" for a
    by (simp add: Stats_foldTuple row_foldTuple addMonth_commute)
  then have "Stats (foldTuple mk1 (foldTuple mk2 g t2) t1) =
        Stats (foldTuple mk2 (foldTuple mk1 g t1) t2)"
    by (rule ext)
  moreover have "totalInsertions (foldTuple mk1 (foldTuple mk2 g t2) t1) =
        totalInsertions (foldTuple mk2 (foldTuple mk1 g t1) t2)"
    by (simp add: foldTuple_def ac_simps)
  moreover have "totalDeletions (foldTuple mk1 (foldTuple mk2 g t2) t1) =
        totalDeletions (foldTuple mk2 (foldTuple mk1 g t1) t2)"
    by (simp add: foldTuple_def ac_simps)
  ultimately show ?thesis by simp
qed

lemma foldTagged_commute: "foldTagged x \<circ> foldTagged y = foldTagged y \<circ> foldTagged x"
  by (rule ext) (simp add: foldTagged_def foldTuple_commute)

lemma foldl_foldTuple_tagged:
  "foldl (foldTuple mk) g ts = fold foldTagged (map (Pair mk) ts) g"
  by (induction ts arbitrary: g) (simp_all add: foldTagged_def)

lemma foldl_foldScan_tagged:
  "foldl foldScan g scans = fold foldTagged (taggedTuples scans) g"
proof (induction scans arbitrary: g)
  case Nil
  then show ?case by (simp add: taggedTuples_def)
next
  case (Cons scan scans)
  have tt: "taggedTuples (scan # scans) =
      map (Pair (fst scan)) (attributionTuples [] (Split (snd scan))) @ taggedTuples scans"
    by (simp add: taggedTuples_def)
  have step: "foldScan g scan =
      fold foldTagged (map (Pair (fst scan)) (attributionTuples [] (Split (snd scan)))) g"
    by (simp add: foldScan_def processOutput_tuples foldl_foldTuple_tagged)
  show ?case
    by (simp only: foldl_Cons Cons.IH step tt fold_append o_apply)
qed

lemma tagged_order:
  assumes "mset (taggedTuples scans') = mset (taggedTuples scans)"
  shows "foldl foldScan g scans' = foldl foldScan g scans"
proof -
  have "fold foldTagged (taggedTuples scans') = fold foldTagged (taggedTuples scans)"
    by (rule fold_multiset_equiv [OF foldTagged_commute assms])
  then show ?thesis by (simp add: foldl_foldScan_tagged)
qed

lemma mset_taggedTuples:
  "mset (taggedTuples scans) =
    (\<Sum>scan\<in>#mset scans. mset (map (Pair (fst scan)) (attributionTuples [] (Split (snd scan)))))"
  by (induction scans) (simp_all add: taggedTuples_def)

lemma scan_order:
  assumes "mset scans' = mset scans"
  shows "foldl foldScan g scans' = foldl foldScan g scans"
  by (rule tagged_order) (simp add: mset_taggedTuples assms)

text \<open>
  Claim C3. Folding the same scans in any order gives the same statistics: the same cells
  and the same totals. More generally the result depends only on the multiset of the
  tuples with their month keys, and two scans commute.
\<close>

theorem fold_order_independent:
  "(mset scans' = mset scans \<longrightarrow> foldl foldScan g scans' = foldl foldScan g scans) \<and>
   (mset (taggedTuples scans') = mset (taggedTuples scans) \<longrightarrow>
      foldl foldScan g scans' = foldl foldScan g scans) \<and>
   foldScan (foldScan g s1) s2 = foldScan (foldScan g s2) s1"
proof (intro conjI impI)
  assume "mset scans' = mset scans"
  then show "foldl foldScan g scans' = foldl foldScan g scans" by (rule scan_order)
next
  assume "mset (taggedTuples scans') = mset (taggedTuples scans)"
  then show "foldl foldScan g scans' = foldl foldScan g scans" by (rule tagged_order)
next
  have "foldl foldScan g [s1, s2] = foldl foldScan g [s2, s1]"
    by (rule scan_order) simp
  then show "foldScan (foldScan g s1) s2 = foldScan (foldScan g s2) s1" by simp
qed

text \<open>The hypotheses of C3 at two scans taken in both orders.\<close>

theorem fold_order_independent_witness:
  "mset [example2, example1] = mset [example1, example2] \<and>
   mset (taggedTuples [example2, example1]) = mset (taggedTuples [example1, example2]) \<and>
   foldl foldScan gbInit [example2, example1] = foldl foldScan gbInit [example1, example2]"
proof -
  have m: "mset [example2, example1] = mset [example1, example2]" by simp
  then have t: "mset (taggedTuples [example2, example1]) = mset (taggedTuples [example1, example2])"
    by (simp add: mset_taggedTuples)
  from fold_order_independent [of "[example2, example1]" "[example1, example2]" gbInit] m t
  show ?thesis by blast
qed

section \<open>Signs and growth of the counts\<close>

lemma rowSum_member_le:
  fixes h :: "ChangesStats \<Rightarrow> nat"
  assumes "finite (dom months)" "months m = Some c"
  shows "h c \<le> rowSum h months"
proof -
  have "m \<in> dom months" using assms(2) by auto
  then have "h (the (months m)) \<le> (\<Sum>x\<in>dom months. h (the (months x)))"
    using assms(1) by (intro member_le_sum) auto
  then show ?thesis using assms(2) by (simp add: rowSum_def)
qed

lemma cell_le_cellSum:
  fixes h :: "ChangesStats \<Rightarrow> nat"
  assumes "finDoms g" "row g a m = Some c"
  shows "h c \<le> cellSum h g"
proof -
  from assms(2) obtain months where S: "Stats g a = Some months" and c: "months m = Some c"
    by (auto simp: row_def split: option.splits)
  from assms(1) S have fin: "finite (dom months)" "finite (dom (Stats g))"
    by (auto simp: finDoms_def)
  have "h c \<le> rowSum h months" by (rule rowSum_member_le [OF fin(1) c])
  also have "rowSum h months = rowSum h (the (Stats g a))" using S by simp
  also have "\<dots> \<le> (\<Sum>x\<in>dom (Stats g). rowSum h (the (Stats g x)))"
    using fin(2) S by (intro member_le_sum) auto
  finally show ?thesis by (simp add: cellSum_def)
qed

lemma unat_add_no_wrap:
  fixes x y :: goint
  assumes "unat x + unat y < 2 ^ 63"
  shows "unat (x + y) = unat x + unat y"
proof -
  have "(2::nat) ^ 63 \<le> 2 ^ 64" by (rule power_increasing) simp_all
  with assms have "unat x + unat y < 2 ^ LENGTH(64)" by simp
  then show ?thesis by (simp only: unat_add_lem)
qed

lemma cellSum_unat_foldTuple:
  fixes f :: "ChangesStats \<Rightarrow> goint" and k :: goint
  assumes fin: "finDoms g"
    and N: "cellSum (\<lambda>c. unat (f c)) g = N"
    and bound: "N + unat k < 2 ^ 63"
    and upd: "f (the (addMonth mk (snd t) (row g (fst t)) mk)) =
        (case row g (fst t) mk of None \<Rightarrow> 0 | Some u \<Rightarrow> f u) + k"
  shows "cellSum (\<lambda>c. unat (f c)) (foldTuple mk g t) = N + unat k"
proof -
  let ?oldw = "case row g (fst t) mk of None \<Rightarrow> 0 | Some u \<Rightarrow> f u"
  let ?old = "case row g (fst t) mk of None \<Rightarrow> 0 | Some u \<Rightarrow> unat (f u)"
  have old: "?old = unat ?oldw" by (simp split: option.splits)
  have "unat ?oldw \<le> N"
  proof (cases "row g (fst t) mk")
    case None
    then show ?thesis by simp
  next
    case (Some u)
    with cell_le_cellSum [OF fin Some, of "\<lambda>c. unat (f c)"] N show ?thesis by simp
  qed
  with bound have "unat ?oldw + unat k < 2 ^ 63" by simp
  then have new: "unat (?oldw + k) = unat ?oldw + unat k" by (rule unat_add_no_wrap)
  have "cellSum (\<lambda>c. unat (f c)) (foldTuple mk g t) + ?old =
      cellSum (\<lambda>c. unat (f c)) g + unat (f (the (addMonth mk (snd t) (row g (fst t)) mk)))"
    by (rule cellSum_foldTuple [OF fin])
  then show ?thesis unfolding upd new old N by simp
qed


lemma row_foldTuple_cell:
  assumes "row g a m = Some c"
  shows "row (foldTuple mk g t) a m =
    Some (if a = fst t \<and> m = mk
          then \<lparr>Insertions = Insertions c + fst (snd t), Deletions = Deletions c + snd (snd t)\<rparr>
          else c)"
  using assms by (auto simp: row_foldTuple addMonth_apply)

lemma bounded_foldTuple:
  assumes b: "bounded g N M"
    and bi: "N + unat (fst (snd t)) < 2 ^ 63" and bd: "M + unat (snd (snd t)) < 2 ^ 63"
  shows "bounded (foldTuple mk g t) (N + unat (fst (snd t))) (M + unat (snd (snd t)))"
    and "growU g (foldTuple mk g t)"
proof -
  from b have fin: "finDoms g"
    and cI: "cellSum (\<lambda>c. unat (Insertions c)) g = N" and tI: "unat (totalInsertions g) = N"
    and cD: "cellSum (\<lambda>c. unat (Deletions c)) g = M" and tD: "unat (totalDeletions g) = M"
    by (simp_all add: bounded_def)
  have 1: "cellSum (\<lambda>c. unat (Insertions c)) (foldTuple mk g t) = N + unat (fst (snd t))"
    by (rule cellSum_unat_foldTuple [OF fin cI bi]) (rule addMonth_Insertions)
  have 2: "cellSum (\<lambda>c. unat (Deletions c)) (foldTuple mk g t) = M + unat (snd (snd t))"
    by (rule cellSum_unat_foldTuple [OF fin cD bd]) (rule addMonth_Deletions)
  have 3: "unat (totalInsertions (foldTuple mk g t)) = N + unat (fst (snd t))"
    using unat_add_no_wrap [of "totalInsertions g" "fst (snd t)"] bi tI
    by (simp add: foldTuple_def)
  have 4: "unat (totalDeletions (foldTuple mk g t)) = M + unat (snd (snd t))"
    using unat_add_no_wrap [of "totalDeletions g" "snd (snd t)"] bd tD
    by (simp add: foldTuple_def)
  from 1 2 3 4 finDoms_foldTuple [OF fin]
  show "bounded (foldTuple mk g t) (N + unat (fst (snd t))) (M + unat (snd (snd t)))"
    by (simp add: bounded_def)
  show "growU g (foldTuple mk g t)"
    unfolding growU_def
  proof (intro allI impI)
    fix a m c
    assume c: "row g a m = Some c"
    have "unat (Insertions c) \<le> N"
      using cell_le_cellSum [OF fin c, of "\<lambda>c. unat (Insertions c)"] cI by simp
    with bi have i: "unat (Insertions c + fst (snd t)) = unat (Insertions c) + unat (fst (snd t))"
      by (intro unat_add_no_wrap) simp
    have "unat (Deletions c) \<le> M"
      using cell_le_cellSum [OF fin c, of "\<lambda>c. unat (Deletions c)"] cD by simp
    with bd have d: "unat (Deletions c + snd (snd t)) = unat (Deletions c) + unat (snd (snd t))"
      by (intro unat_add_no_wrap) simp
    show "\<exists>c'. row (foldTuple mk g t) a m = Some c' \<and>
        unat (Insertions c) \<le> unat (Insertions c') \<and> unat (Deletions c) \<le> unat (Deletions c')"
      unfolding row_foldTuple_cell [OF c] using i d by simp
  qed
qed

lemma growU_refl: "growU g g"
  by (simp add: growU_def)

lemma growU_trans: "growU g g' \<Longrightarrow> growU g' g'' \<Longrightarrow> growU g g''"
  unfolding growU_def by (meson order_trans)

lemma bounded_fold:
  assumes "bounded g N M" "N + sumI ts < 2 ^ 63" "M + sumD ts < 2 ^ 63"
  shows "bounded (fold foldTagged ts g) (N + sumI ts) (M + sumD ts) \<and>
    growU g (fold foldTagged ts g)"
  using assms
proof (induction ts arbitrary: g N M)
  case Nil
  then show ?case by (simp add: sumI_def sumD_def growU_refl)
next
  case (Cons mt ts)
  let ?i = "unat (fst (snd (snd mt)))" and ?d = "unat (snd (snd (snd mt)))"
  have sI: "sumI (mt # ts) = ?i + sumI ts" and sD: "sumD (mt # ts) = ?d + sumD ts"
    by (simp_all add: sumI_def sumD_def)
  from Cons.prems have bi: "N + ?i < 2 ^ 63" and bd: "M + ?d < 2 ^ 63"
    unfolding sI sD by simp_all
  note step = bounded_foldTuple [OF Cons.prems(1) bi bd, of "fst mt"]
  have "bounded (fold foldTagged ts (foldTagged mt g)) ((N + ?i) + sumI ts) ((M + ?d) + sumD ts) \<and>
    growU (foldTagged mt g) (fold foldTagged ts (foldTagged mt g))"
  proof (rule Cons.IH)
    show "bounded (foldTagged mt g) (N + ?i) (M + ?d)"
      unfolding foldTagged_def by (rule step(1))
    show "N + ?i + sumI ts < 2 ^ 63" using Cons.prems(2) unfolding sI by (simp add: ac_simps)
    show "M + ?d + sumD ts < 2 ^ 63" using Cons.prems(3) unfolding sD by (simp add: ac_simps)
  qed
  moreover have "growU g (foldTagged mt g)"
    unfolding foldTagged_def by (rule step(2))
  ultimately show ?case
    unfolding sI sD by (auto simp: ac_simps intro: growU_trans)
qed

lemma bounded_gbInit: "bounded gbInit 0 0"
  by (simp add: bounded_def finDoms_gbInit) (simp add: gbInit_def cellSum_def)


lemma sumI_append: "sumI (xs @ ys) = sumI xs + sumI ys"
  by (simp add: sumI_def)

lemma sumD_append: "sumD (xs @ ys) = sumD xs + sumD ys"
  by (simp add: sumD_def)

lemma taggedTuples_append: "taggedTuples (xs @ ys) = taggedTuples xs @ taggedTuples ys"
  by (simp add: taggedTuples_def)

lemma foldScan_tagged: "foldScan g scan = fold foldTagged (taggedTuples [scan]) g"
  using foldl_foldScan_tagged [of g "[scan]"] by simp

lemma extractCounts_nonneg:
  "0 \<le> sint (fst (extractCounts line))" "0 \<le> sint (snd (extractCounts line))"
  by (simp_all add: extract_ins extract_del sint_Sscanf_d split: option.splits)

lemma bounded_cell:
  assumes "bounded g N M" "N < 2 ^ 63" "M < 2 ^ 63" "row g a m = Some c"
  shows "sint (Insertions c) = int (unat (Insertions c))"
    and "sint (Deletions c) = int (unat (Deletions c))"
proof -
  from assms(1) have fin: "finDoms g"
    and cI: "cellSum (\<lambda>c. unat (Insertions c)) g = N"
    and cD: "cellSum (\<lambda>c. unat (Deletions c)) g = M"
    by (simp_all add: bounded_def)
  have "unat (Insertions c) \<le> N"
    using cell_le_cellSum [OF fin assms(4), of "\<lambda>c. unat (Insertions c)"] cI by simp
  with assms(2) have "unat (Insertions c) < 2 ^ 63" by simp
  then show "sint (Insertions c) = int (unat (Insertions c))" by (rule sint_eq_unat)
  have "unat (Deletions c) \<le> M"
    using cell_le_cellSum [OF fin assms(4), of "\<lambda>c. unat (Deletions c)"] cD by simp
  with assms(3) have "unat (Deletions c) < 2 ^ 63" by simp
  then show "sint (Deletions c) = int (unat (Deletions c))" by (rule sint_eq_unat)
qed

lemma bounded_totals:
  assumes "bounded g N M" "N < 2 ^ 63" "M < 2 ^ 63"
  shows "sint (totalInsertions g) = int N" "sint (totalDeletions g) = int M"
proof -
  from assms(1) have t: "unat (totalInsertions g) = N" "unat (totalDeletions g) = M"
    by (simp_all add: bounded_def)
  show "sint (totalInsertions g) = int N"
    using sint_eq_unat [of "totalInsertions g"] assms(2) t by simp
  show "sint (totalDeletions g) = int M"
    using sint_eq_unat [of "totalDeletions g"] assms(3) t by simp
qed

lemma no_overflow_step:
  assumes I: "insertionsRead (scans @ [scan]) < 2 ^ 63"
    and D: "deletionsRead (scans @ [scan]) < 2 ^ 63"
  defines "g \<equiv> foldl foldScan gbInit scans"
  defines "g' \<equiv> foldScan (foldl foldScan gbInit scans) scan"
  shows "cellsNonneg g'" "0 \<le> sint (totalInsertions g')" "0 \<le> sint (totalDeletions g')"
    "cellsGrow g g'" "sint (totalInsertions g) \<le> sint (totalInsertions g')"
    "sint (totalDeletions g) \<le> sint (totalDeletions g')"
proof -
  let ?ts = "taggedTuples scans" and ?ts' = "taggedTuples [scan]"
  let ?N = "sumI ?ts" and ?M = "sumD ?ts"
  let ?N' = "sumI ?ts + sumI ?ts'" and ?M' = "sumD ?ts + sumD ?ts'"
  from I have N': "?N' < 2 ^ 63"
    by (simp add: insertionsRead_def taggedTuples_append sumI_def)
  from D have M': "?M' < 2 ^ 63"
    by (simp add: deletionsRead_def taggedTuples_append sumD_def)
  from N' have N: "?N < 2 ^ 63" by simp
  from M' have M: "?M < 2 ^ 63" by simp
  have g: "g = fold foldTagged ?ts gbInit"
    by (simp add: g_def foldl_foldScan_tagged)
  have g': "g' = fold foldTagged ?ts' g"
    by (simp add: g'_def g_def foldScan_tagged)
  have bg: "bounded g ?N ?M"
    using bounded_fold [OF bounded_gbInit, of ?ts] N M by (simp add: g)
  from bounded_fold [OF bg N' M'] have bg': "bounded g' ?N' ?M'" and gr: "growU g g'"
    by (simp_all add: g')
  show "cellsNonneg g'"
    unfolding cellsNonneg_def using bounded_cell [OF bg' N' M'] by simp
  show "0 \<le> sint (totalInsertions g')" "0 \<le> sint (totalDeletions g')"
    using bounded_totals [OF bg' N' M'] by simp_all
  show "sint (totalInsertions g) \<le> sint (totalInsertions g')"
    "sint (totalDeletions g) \<le> sint (totalDeletions g')"
    using bounded_totals [OF bg' N' M'] bounded_totals [OF bg N M] by simp_all
  show "cellsGrow g g'"
    unfolding cellsGrow_def
  proof (intro allI impI)
    fix a m c
    assume c: "row g a m = Some c"
    with gr obtain c' where c': "row g' a m = Some c'"
      and le: "unat (Insertions c) \<le> unat (Insertions c')" "unat (Deletions c) \<le> unat (Deletions c')"
      unfolding growU_def by blast
    have i: "sint (Insertions c) \<le> sint (Insertions c')"
      unfolding bounded_cell(1) [OF bg N M c] bounded_cell(1) [OF bg' N' M' c']
      using le(1) by (simp only: of_nat_le_iff)
    have d: "sint (Deletions c) \<le> sint (Deletions c')"
      unfolding bounded_cell(2) [OF bg N M c] bounded_cell(2) [OF bg' N' M' c']
      using le(2) by (simp only: of_nat_le_iff)
    from c' i d show "\<exists>c'. row g' a m = Some c' \<and> sint (Insertions c) \<le> sint (Insertions c') \<and>
        sint (Deletions c) \<le> sint (Deletions c')"
      by blast
  qed
qed

text \<open>
  Claim C10, as amended. Every count extracted from a line is non-negative. When the
  insertions read by all scans up to and including a scan add up to less than \<open>2^63\<close>,
  and so do the deletions, then after folding that scan every cell and both totals are
  non-negative, and the fold has decreased no cell that existed before it and neither
  total.
\<close>

theorem counts_monotone_within_int:
  "0 \<le> sint (fst (extractCounts line)) \<and> 0 \<le> sint (snd (extractCounts line)) \<and>
   (insertionsRead (scans @ [scan]) < 2 ^ 63 \<and> deletionsRead (scans @ [scan]) < 2 ^ 63 \<longrightarrow>
      cellsNonneg (foldScan (foldl foldScan gbInit scans) scan) \<and>
      0 \<le> sint (totalInsertions (foldScan (foldl foldScan gbInit scans) scan)) \<and>
      0 \<le> sint (totalDeletions (foldScan (foldl foldScan gbInit scans) scan)) \<and>
      cellsGrow (foldl foldScan gbInit scans) (foldScan (foldl foldScan gbInit scans) scan) \<and>
      sint (totalInsertions (foldl foldScan gbInit scans)) \<le>
        sint (totalInsertions (foldScan (foldl foldScan gbInit scans) scan)) \<and>
      sint (totalDeletions (foldl foldScan gbInit scans)) \<le>
        sint (totalDeletions (foldScan (foldl foldScan gbInit scans) scan)))"
  using extractCounts_nonneg [of line] no_overflow_step [of scans scan] by blast

lemma tuples_overflowLog:
  "attributionTuples [] (Split overflowLog) =
    [(''a@x'', 9223372036854775807, 0), (''a@x'', 1, 0)]"
proof -
  have s: "Split overflowLog =
      [''a@x'', '' 1 file changed, 9223372036854775807 insertions(+)'',
       '' 1 file changed, 1 insertion(+)'', []]"
    by (simp add: overflowLog_def Split_Cons del: Split.simps(2))
  have n: "Sscanf_d ''9223372036854775807'' = 9223372036854775807"
    by (simp add: Sscanf_d_def decimal_def digitVal_def)
  have l: "\<not> isStatLine ''a@x''"
    "isStatLine '' 1 file changed, 9223372036854775807 insertions(+)''"
    "isStatLine '' 1 file changed, 1 insertion(+)''"
    by (simp_all add: isStatLine_def)
  have c: "extractCounts '' 1 file changed, 9223372036854775807 insertions(+)'' =
      (9223372036854775807, 0)"
    "extractCounts '' 1 file changed, 1 insertion(+)'' = (1, 0)"
    by (simp_all add: extractCounts_def matchAt_def isDigit_iff Sscanf_d_small n)
  show ?thesis by (simp add: s l c)
qed

text \<open>
  Claim C10 as stated fails: a scan with a commit of 9223372036854775807 inserted lines and
  a commit of one inserted line leaves a negative total and a negative cell.
\<close>

theorem overflow_counterexample:
  "sint (totalInsertions (foldl foldScan gbInit [(''(2024-03) March 2024'', overflowLog)])) < 0 \<and>
   row (foldl foldScan gbInit [(''(2024-03) March 2024'', overflowLog)])
     ''a@x'' ''(2024-03) March 2024'' =
     Some \<lparr>Insertions = - 9223372036854775808, Deletions = 0\<rparr>"
  by (simp add: foldScan_def processOutput_tuples tuples_overflowLog foldTuple_def addMonth_def
      gbInit_def row_def)

lemma tuples_example2:
  "attributionTuples [] (Split (snd example2)) = [(''bob@x'', 0, 2)]"
proof -
  have s: "Split (snd example2) = [''bob@x'', '' 1 file changed, 2 deletions(-)'', []]"
    by (simp add: example2_def Split_Cons del: Split.simps(2))
  have n: "Sscanf_d ''2'' = 2"
    by (simp add: Sscanf_d_def decimal_def digitVal_def)
  have l: "isStatLine '' 1 file changed, 2 deletions(-)''"
    by (simp add: isStatLine_def)
  have c: "extractCounts '' 1 file changed, 2 deletions(-)'' = (0, 2)"
    by (simp add: extractCounts_def matchAt_def isDigit_iff n)
  show ?thesis by (simp add: s l c example_lines)
qed

lemma taggedTuples_examples:
  "taggedTuples [example2, example1] =
    [(''(2024-02) February 2024'', ''bob@x'', 0, 2),
     (''(2024-03) March 2024'', ''alice@x'', 3, 0),
     (''(2024-03) March 2024'', ''alice@x'', 1, 1),
     (''(2024-03) March 2024'', ''bob@x'', 5, 0)]"
proof -
  have 1: "snd example1 = exampleLog" "fst example1 = ''(2024-03) March 2024''"
    by (simp_all add: example1_def)
  have 2: "fst example2 = ''(2024-02) February 2024''"
    by (simp add: example2_def)
  show ?thesis
    unfolding taggedTuples_def
    by (simp only: list.map concat.simps tuples_example2 tuples_exampleLog 1 2 append.simps)
qed

text \<open>The hypotheses of the amended C10 at two scans of 9 insertions and 3 deletions.\<close>

theorem counts_monotone_within_int_witness:
  "insertionsRead ([example2] @ [example1]) < 2 ^ 63 \<and>
   deletionsRead ([example2] @ [example1]) < 2 ^ 63 \<and>
   cellsNonneg (foldScan (foldl foldScan gbInit [example2]) example1) \<and>
   cellsGrow (foldl foldScan gbInit [example2]) (foldScan (foldl foldScan gbInit [example2]) example1) \<and>
   sint (totalInsertions (foldl foldScan gbInit [example2])) \<le>
     sint (totalInsertions (foldScan (foldl foldScan gbInit [example2]) example1))"
proof -
  have i: "insertionsRead ([example2] @ [example1]) < 2 ^ 63"
    unfolding insertionsRead_def append.simps taggedTuples_examples by simp
  have d: "deletionsRead ([example2] @ [example1]) < 2 ^ 63"
    unfolding deletionsRead_def append.simps taggedTuples_examples by simp
  from counts_monotone_within_int [of _ "[example2]" example1] i d show ?thesis
    by blast
qed

section \<open>Statistics lines without an author\<close>

lemma tuples_register_nonempty:
  "a \<noteq> [] \<Longrightarrow> \<forall>t\<in>set (attributionTuples a ls). fst t \<noteq> []"
  by (induction ls arbitrary: a) auto

lemma tuples_skip_empty:
  "\<forall>l\<in>set pre. l = [] \<Longrightarrow> attributionTuples a (pre @ rest) = attributionTuples a rest"
  by (induction pre) auto

lemma Stats_foldTuple_other: "fst t \<noteq> a \<Longrightarrow> Stats (foldTuple mk g t) a = Stats g a"
  by (simp add: Stats_foldTuple)

lemma Stats_fold_other:
  "\<forall>t\<in>set ts. fst t \<noteq> a \<Longrightarrow> Stats (foldl (foldTuple mk) g ts) a = Stats g a"
  by (induction ts arbitrary: g) (simp_all add: Stats_foldTuple_other)

lemma Stats_foldTuple_keeps: "Stats g a \<noteq> None \<Longrightarrow> Stats (foldTuple mk g t) a \<noteq> None"
  by (simp add: Stats_foldTuple)

lemma Stats_fold_keeps:
  "Stats g a \<noteq> None \<Longrightarrow> Stats (foldl (foldTuple mk) g ts) a \<noteq> None"
proof (induction ts arbitrary: g)
  case Nil
  then show ?case by simp
next
  case (Cons t ts)
  from Cons.prems have "Stats (foldTuple mk g t) a \<noteq> None" by (rule Stats_foldTuple_keeps)
  then have "Stats (foldl (foldTuple mk) (foldTuple mk g t) ts) a \<noteq> None" by (rule Cons.IH)
  then show ?case by simp
qed

lemma Stats_fold_present:
  "a \<in> fst ` set ts \<Longrightarrow> Stats (foldl (foldTuple mk) g ts) a \<noteq> None"
proof (induction ts arbitrary: g)
  case Nil
  then show ?case by simp
next
  case (Cons t ts)
  show ?case
  proof (cases "fst t = a")
    case True
    then have "Stats (foldTuple mk g t) a \<noteq> None" by (simp add: Stats_foldTuple)
    then show ?thesis by (simp add: Stats_fold_keeps)
  next
    case False
    with Cons.prems have "a \<in> fst ` set ts" by auto
    then show ?thesis by (simp add: Cons.IH)
  qed
qed

lemma orphan_tuples:
  assumes "\<forall>l\<in>set pre. l = [] \<or> isStatLine l" "sl \<noteq> []" "isStatLine sl"
  shows "attributionTuples [] (pre @ sl # post) =
    attributionTuples [] pre @ ([], extractCounts sl) # attributionTuples [] post"
  using assms by (simp add: attributionTuples_same_author)

text \<open>
  Claim C4, as amended. The parser has no error: a statistics line \<open>sl\<close> met before any
  author line (only empty and statistics lines stand in \<open>pre\<close>) gives a tuple with the
  empty author key, and the statistics then have an entry for the empty key. When the
  first non-empty line is an author line, no tuple has the empty author key and the scan
  leaves the entry of the empty key as it was.
\<close>

theorem orphan_statistics_line:
  "((\<forall>l\<in>set pre. l = [] \<or> isStatLine l) \<and> sl \<noteq> [] \<and> isStatLine sl \<longrightarrow>
      attributionTuples [] (pre @ sl # post) =
        attributionTuples [] pre @ ([], extractCounts sl) # attributionTuples [] post \<and>
      (Split output = pre @ sl # post \<longrightarrow> Stats (processOutput mk output g) [] \<noteq> None)) \<and>
   ((\<forall>l\<in>set pre. l = []) \<and> al \<noteq> [] \<and> \<not> isStatLine al \<longrightarrow>
      (\<forall>t\<in>set (attributionTuples [] (pre @ al # rest)). fst t \<noteq> []) \<and>
      (Split output = pre @ al # rest \<longrightarrow> Stats (processOutput mk output g) [] = Stats g []))"
proof (intro conjI impI)
  assume a: "(\<forall>l\<in>set pre. l = [] \<or> isStatLine l) \<and> sl \<noteq> [] \<and> isStatLine sl"
  then show t: "attributionTuples [] (pre @ sl # post) =
      attributionTuples [] pre @ ([], extractCounts sl) # attributionTuples [] post"
    by (intro orphan_tuples) simp_all
  assume "Split output = pre @ sl # post"
  with t have "[] \<in> fst ` set (attributionTuples [] (Split output))" by simp
  then show "Stats (processOutput mk output g) [] \<noteq> None"
    unfolding processOutput_tuples by (rule Stats_fold_present)
next
  assume a: "(\<forall>l\<in>set pre. l = []) \<and> al \<noteq> [] \<and> \<not> isStatLine al"
  then have t: "attributionTuples [] (pre @ al # rest) = attributionTuples al rest"
    by (simp add: tuples_skip_empty)
  from a show ne: "\<forall>t\<in>set (attributionTuples [] (pre @ al # rest)). fst t \<noteq> []"
    unfolding t by (intro tuples_register_nonempty) simp
  assume "Split output = pre @ al # rest"
  with ne have "\<forall>t\<in>set (attributionTuples [] (Split output)). fst t \<noteq> []" by simp
  then show "Stats (processOutput mk output g) [] = Stats g []"
    unfolding processOutput_tuples by (rule Stats_fold_other)
qed

lemma Split_orphanLog: "Split orphanLog = ['' 1 file changed, 3 insertions(+)'', []]"
  by (simp add: orphanLog_def Split_Cons del: Split.simps(2))

lemma tuples_orphanLog: "attributionTuples [] (Split orphanLog) = [([], 3, 0)]"
  by (simp add: Split_orphanLog example_lines example_counts)

text \<open>
  Claim C4 as stated fails: for an output that starts with a statistics line the tuple
  has the empty author key, and the statistics get an entry for it.
\<close>

theorem empty_author_counterexample:
  "attributionTuples [] (Split orphanLog) = [([], 3, 0)] \<and>
   Stats (processOutput ''(2024-03) March 2024'' orphanLog gbInit) [] =
     Some [''(2024-03) March 2024'' \<mapsto> \<lparr>Insertions = 3, Deletions = 0\<rparr>]"
  unfolding processOutput_tuples tuples_orphanLog
  by (simp add: foldTuple_def addMonth_def gbInit_def)

text \<open>The hypotheses of the amended C4 at the two example outputs.\<close>

theorem orphan_statistics_line_witness:
  "isStatLine '' 1 file changed, 3 insertions(+)'' \<and>
   Split orphanLog = [] @ '' 1 file changed, 3 insertions(+)'' # [[]] \<and>
   Stats (processOutput ''(2024-03) March 2024'' orphanLog gbInit) [] \<noteq> None \<and>
   \<not> isStatLine ''alice@x'' \<and>
   Split exampleLog = [] @ ''alice@x'' # tl (Split exampleLog) \<and>
   Stats (processOutput ''(2024-03) March 2024'' exampleLog gbInit) [] = Stats gbInit []"
proof -
  have 1: "Split orphanLog = [] @ '' 1 file changed, 3 insertions(+)'' # [[]]"
    by (simp add: Split_orphanLog)
  have 2: "Split exampleLog = [] @ ''alice@x'' # tl (Split exampleLog)"
    by (simp add: Split_exampleLog)
  note t = orphan_statistics_line [of "[]" "'' 1 file changed, 3 insertions(+)''" "[[]]"
      orphanLog "''(2024-03) March 2024''" gbInit "''alice@x''" "tl (Split exampleLog)"]
  note u = orphan_statistics_line [of "[]" "'' 1 file changed, 3 insertions(+)''" "[[]]"
      exampleLog "''(2024-03) March 2024''" gbInit "''alice@x''" "tl (Split exampleLog)"]
  have a: "Stats (processOutput ''(2024-03) March 2024'' orphanLog gbInit) [] \<noteq> None"
    using t 1 example_lines by simp
  have b: "Stats (processOutput ''(2024-03) March 2024'' exampleLog gbInit) [] = Stats gbInit []"
    using u 2 example_lines by simp
  from a b 1 2 example_lines show ?thesis by simp
qed

section \<open>Dates of the iterations\<close>

subsection \<open>Evaluation of dates and formats\<close>

lemma showNat_small: "n < 10 \<Longrightarrow> showNat n = [char_of (48 + n)]"
  by (subst showNat.simps) simp

lemma showNat_large: "10 \<le> n \<Longrightarrow> showNat n = showNat (n div 10) @ [char_of (48 + n mod 10)]"
  by (subst showNat.simps) simp

lemmas eval_date = iterMonth_def AddDate_def Date_def normMonth_def normDay.simps daysIn_def
  isLeap_def firstDayOfMonth_def lastDayOfMonth_def

lemmas eval_format = formatMonthStr_def formatISO_def appendInt_def showNat_small showNat_large
  char_of_eq_iff monthName_def longMonthNames_def

subsection \<open>Normal dates\<close>

lemma normMonth_id: "1 \<le> m \<Longrightarrow> m \<le> 12 \<Longrightarrow> normMonth y m = (y, m)"
  by (simp add: normMonth_def)

lemma normMonth_range: "normMonth y m = (y', m') \<Longrightarrow> 1 \<le> m' \<and> m' \<le> 12"
  by (auto simp: normMonth_def intro: zmod_le_nonneg_dividend)

lemma normDay_id: "1 \<le> d \<Longrightarrow> d \<le> daysIn y m \<Longrightarrow> normDay y m d = (y, m, d)"
  by (subst normDay.simps) simp

lemma normDay_zero:
  assumes "1 \<le> m" "m \<le> 12"
  shows "normDay y m 0 =
    (case normMonth y (m - 1) of (y', m') \<Rightarrow> (y', m', daysIn y' m'))"
proof -
  obtain y' m' where n: "normMonth y (m - 1) = (y', m')" by (cases "normMonth y (m - 1)")
  have "1 \<le> daysIn y' m'" by (simp add: daysIn_def)
  then have "normDay y' m' (daysIn y' m') = (y', m', daysIn y' m')"
    by (intro normDay_id) simp_all
  then show ?thesis by (subst normDay.simps) (simp add: n)
qed

lemma Date_valid: "validDate (y, m, d) \<Longrightarrow> Date y m d = (y, m, d)"
  by (simp add: validDate_def Date_def normMonth_id normDay_id)

lemma daysIn_ge_28: "28 \<le> daysIn y m"
  by (simp add: daysIn_def)

lemma firstDay:
  assumes "1 \<le> m" "m \<le> 12"
  shows "Date y m 1 = (y, m, 1)"
  using assms daysIn_ge_28 [of y m] by (intro Date_valid) (simp add: validDate_def)

lemma normMonth_succ:
  assumes "1 \<le> m" "m \<le> 12"
  shows "normMonth y (m + 1) = (if m = 12 then (y + 1, 1) else (y, m + 1))"
  using assms by (simp add: normMonth_def)

lemma lastDay:
  assumes "1 \<le> m" "m \<le> 12"
  shows "AddDate (y, m, 1) 0 1 (- 1) = (y, m, daysIn y m)"
proof (cases "m = 12")
  case True
  have "normMonth (y + 1) (1 - 1) = (y, 12)" "normMonth y 13 = (y + 1, 1)"
    by (simp_all add: normMonth_def)
  then show ?thesis
    using True normDay_zero [of 1 "y + 1"]
    by (simp add: AddDate_def Date_def)
next
  case False
  with assms have m: "1 \<le> m + 1" "m + 1 \<le> 12" by simp_all
  have "normMonth y (m + 1 - 1) = (y, m)" using assms by (simp add: normMonth_id)
  then show ?thesis
    using False assms normDay_zero [OF m, of y]
    by (simp add: AddDate_def Date_def normMonth_succ)
qed


lemma normDay_valid:
  "1 \<le> m \<Longrightarrow> m \<le> 12 \<Longrightarrow> validDate (normDay y m d)"
proof (induction y m d rule: normDay.induct)
  case (1 y m d)
  show ?case
  proof (cases "d < 1")
    case True
    obtain y' m' where n: "normMonth y (m - 1) = (y', m')" by (cases "normMonth y (m - 1)")
    then have "1 \<le> m'" "m' \<le> 12" using normMonth_range by blast+
    then have "validDate (normDay y' m' (d + daysIn y' m'))"
      by (rule "1.IH"(1) [OF True n [symmetric]])
    with True n show ?thesis by (subst normDay.simps) simp
  next
    case False
    show ?thesis
    proof (cases "daysIn y m < d")
      case True
      obtain y' m' where n: "normMonth y (m + 1) = (y', m')" by (cases "normMonth y (m + 1)")
      then have "1 \<le> m'" "m' \<le> 12" using normMonth_range by blast+
      then have "validDate (normDay y' m' (d - daysIn y m))"
        by (rule "1.IH"(2) [OF False True n [symmetric]])
      with False True n show ?thesis by (subst normDay.simps) simp
    next
      case nd: False
      with False "1.prems" show ?thesis
        by (subst normDay.simps) (simp add: validDate_def)
    qed
  qed
qed

lemma Date_validDate: "validDate (Date y m d)"
proof -
  obtain y' m' where n: "normMonth y m = (y', m')" by (cases "normMonth y m")
  then have "1 \<le> m'" "m' \<le> 12" using normMonth_range by blast+
  then show ?thesis by (simp add: Date_def n normDay_valid)
qed

lemma iterMonth_range:
  assumes "iterMonth now i = (y, m)"
  shows "1 \<le> m \<and> m \<le> 12"
proof -
  obtain y0 m0 d0 where now: "now = (y0, m0, d0)" by (cases now)
  obtain y' m' d' where t: "Date (y0 + 0) (m0 + - int i) (d0 + 0) = (y', m', d')"
    by (cases "Date (y0 + 0) (m0 + - int i) (d0 + 0)")
  with Date_validDate [of "y0 + 0" "m0 + - int i" "d0 + 0"] have "1 \<le> m'" "m' \<le> 12"
    by (simp_all add: validDate_def)
  with assms t now show ?thesis by (simp add: iterMonth_def AddDate_def)
qed

lemma month_window:
  assumes "iterMonth now i = (y, m)"
  shows "firstDayOfMonth now i = (y, m, 1)" and "lastDayOfMonth now i = (y, m, daysIn y m)"
proof -
  from iterMonth_range [OF assms] have m: "1 \<le> m" "m \<le> 12" by simp_all
  show f: "firstDayOfMonth now i = (y, m, 1)"
    by (simp add: firstDayOfMonth_def assms firstDay [OF m])
  show "lastDayOfMonth now i = (y, m, daysIn y m)"
    by (simp add: lastDayOfMonth_def f lastDay [OF m])
qed

lemma iterMonth_early_day:
  assumes "1 \<le> m" "m \<le> 12" "1 \<le> d" "d \<le> 28"
  shows "iterMonth (y, m, d) i = normMonth y (m - int i)"
proof -
  obtain y' m' where n: "normMonth y (m - int i) = (y', m')" by (cases "normMonth y (m - int i)")
  have "d \<le> daysIn y' m'" using assms(4) daysIn_ge_28 [of y' m'] by simp
  then have "normDay y' m' d = (y', m', d)" using assms(3) by (intro normDay_id)
  then show ?thesis by (simp add: iterMonth_def AddDate_def Date_def n)
qed

lemma iterMonth_now:
  assumes "validDate (y, m, d)"
  shows "iterMonth (y, m, d) 0 = (y, m)"
  using Date_valid [OF assms] by (simp add: iterMonth_def AddDate_def)

subsection \<open>Keys in lexical order\<close>

lemma length_pad [simp]: "length (pad k n) = k"
  by (induction k arbitrary: n) simp_all

lemma char_of_48: "char_of (48::nat) = CHR ''0''"
  by (simp add: char_of_eq_iff)

lemma pad_zero: "pad k 0 = replicate k CHR ''0''"
  by (induction k) (simp_all add: char_of_48 replicate_append_same)

lemma lex_append_same_length:
  fixes A B :: string
  assumes "length A = length B"
  shows "(A @ r < B @ s) = (A < B \<or> (A = B \<and> r < s))"
  using assms by (induction A B rule: list_induct2) auto

lemma digit_char_less:
  "a < 10 \<Longrightarrow> b < 10 \<Longrightarrow> (char_of (48 + a :: nat) < char_of (48 + b :: nat)) = (a < b)"
  by (simp add: less_char_def)

lemma digit_char_eq:
  assumes "a < 10" "b < 10"
  shows "(char_of (48 + a :: nat) = char_of (48 + b :: nat)) = (a = b)"
proof
  assume "char_of (48 + a) = (char_of (48 + b) :: char)"
  then have "(of_char (char_of (48 + a) :: char) :: nat) = of_char (char_of (48 + b) :: char)"
    by simp
  with assms show "a = b" by simp
next
  assume "a = b"
  then show "char_of (48 + a) = (char_of (48 + b) :: char)" by simp
qed

lemma div_mod_eq10:
  "((x::nat) = y) = (x div 10 = y div 10 \<and> x mod 10 = y mod 10)"
  by (metis div_mult_mod_eq)

lemma div_mod_less:
  "((x::nat) < y) = (x div 10 < y div 10 \<or> (x div 10 = y div 10 \<and> x mod 10 < y mod 10))"
proof -
  have x: "x = 10 * (x div 10) + x mod 10" and y: "y = 10 * (y div 10) + y mod 10" by simp_all
  have "x mod 10 < 10" "y mod 10 < 10" by simp_all
  then show ?thesis by (subst x, subst y) arith
qed

lemma pad_order:
  "x < 10 ^ k \<Longrightarrow> y < 10 ^ k \<Longrightarrow>
   (pad k x < pad k y) = (x < y) \<and> (pad k x = pad k y) = (x = y)"
proof (induction k arbitrary: x y)
  case 0
  then show ?case by simp
next
  case (Suc k)
  from Suc.prems have d: "x div 10 < 10 ^ k" "y div 10 < 10 ^ k"
    by (simp_all add: less_mult_imp_div_less mult.commute)
  note IH = Suc.IH [OF d]
  have m: "x mod 10 < 10" "y mod 10 < 10" by simp_all
  have lt: "(x < y) = (x div 10 < y div 10 \<or> (x div 10 = y div 10 \<and> x mod 10 < y mod 10))"
    by (rule div_mod_less)
  have eq: "(x = y) = (x div 10 = y div 10 \<and> x mod 10 = y mod 10)"
    by (rule div_mod_eq10)
  have "(pad (Suc k) x < pad (Suc k) y) =
      (pad k (x div 10) < pad k (y div 10) \<or>
       (pad k (x div 10) = pad k (y div 10) \<and>
        [char_of (48 + x mod 10)] < [char_of (48 + y mod 10)]))"
    by (simp add: lex_append_same_length)
  also have "\<dots> = (x < y)"
    unfolding lt using IH digit_char_less [OF m] by simp
  finally have 1: "(pad (Suc k) x < pad (Suc k) y) = (x < y)" .
  have 2: "(pad (Suc k) x = pad (Suc k) y) = (x = y)"
    unfolding eq using IH digit_char_eq [OF m] by simp
  from 1 2 show ?case by simp
qed

lemma showNat_pad:
  "n < 10 ^ Suc k \<Longrightarrow>
   replicate (Suc k - length (showNat n)) CHR ''0'' @ showNat n = pad (Suc k) n"
proof (induction k arbitrary: n)
  case 0
  then show ?case by (simp add: showNat_small)
next
  case (Suc k)
  show ?case
  proof (cases "n < 10")
    case True
    then show ?thesis
      by (simp add: showNat_small pad_zero replicate_append_same)
  next
    case False
    from Suc.prems have "n div 10 < 10 ^ Suc k"
      by (simp add: less_mult_imp_div_less mult.commute)
    from Suc.IH [OF this] False show ?thesis
      by (simp add: showNat_large Suc_diff_le)
  qed
qed

lemma appendInt_pad:
  "0 \<le> x \<Longrightarrow> nat x < 10 ^ Suc k \<Longrightarrow> appendInt x (Suc k) = pad (Suc k) (nat x)"
  using showNat_pad [of "nat x" k] by (simp add: appendInt_def Let_def)


lemma formatMonthStr_pad:
  assumes "0 \<le> y" "y \<le> 9999" "1 \<le> m" "m \<le> 12"
  shows "formatMonthStr (y, m, d) =
    ''('' @ pad 4 (nat y) @ ''-'' @ pad 2 (nat m) @ '') '' @ monthName m @ '' '' @ pad 4 (nat y)"
proof -
  have e: "(4::nat) = Suc 3" "(2::nat) = Suc 1" by simp_all
  have "appendInt y 4 = pad 4 (nat y)"
    unfolding e(1) by (rule appendInt_pad) (use assms in simp_all)
  moreover have "appendInt m 2 = pad 2 (nat m)"
    unfolding e(2) by (rule appendInt_pad) (use assms in simp_all)
  ultimately have "appendInt y 4 = pad 4 (nat y) \<and> appendInt m 2 = pad 2 (nat m)" by simp
  then show ?thesis by (simp add: formatMonthStr_def)
qed

lemma key_order:
  assumes "0 \<le> y1" "y1 \<le> 9999" "1 \<le> m1" "m1 \<le> 12"
    and "0 \<le> y2" "y2 \<le> 9999" "1 \<le> m2" "m2 \<le> 12"
  shows "(formatMonthStr (y1, m1, d1) < formatMonthStr (y2, m2, d2)) =
    (y1 < y2 \<or> (y1 = y2 \<and> m1 < m2))"
proof -
  let ?T1 = "'') '' @ monthName m1 @ '' '' @ pad 4 (nat y1)"
  let ?T2 = "'') '' @ monthName m2 @ '' '' @ pad 4 (nat y2)"
  have y: "(pad 4 (nat y1) < pad 4 (nat y2)) = (y1 < y2)" "(pad 4 (nat y1) = pad 4 (nat y2)) = (y1 = y2)"
    using pad_order [of "nat y1" 4 "nat y2"] assms by auto
  have m: "(pad 2 (nat m1) < pad 2 (nat m2)) = (m1 < m2)" "(pad 2 (nat m1) = pad 2 (nat m2)) = (m1 = m2)"
    using pad_order [of "nat m1" 2 "nat m2"] assms by auto
  have inner: "(pad 2 (nat m1) @ ?T1 < pad 2 (nat m2) @ ?T2) =
      (m1 < m2 \<or> (m1 = m2 \<and> ?T1 < ?T2))"
    by (subst lex_append_same_length) (simp_all only: length_pad m)
  have outer: "(pad 4 (nat y1) @ ''-'' @ pad 2 (nat m1) @ ?T1 <
        pad 4 (nat y2) @ ''-'' @ pad 2 (nat m2) @ ?T2) =
      (y1 < y2 \<or> (y1 = y2 \<and> (''-'' @ pad 2 (nat m1) @ ?T1 < ''-'' @ pad 2 (nat m2) @ ?T2)))"
    by (subst lex_append_same_length) (simp_all only: length_pad y)
  have dash: "(''-'' @ pad 2 (nat m1) @ ?T1 < ''-'' @ pad 2 (nat m2) @ ?T2) =
      (pad 2 (nat m1) @ ?T1 < pad 2 (nat m2) @ ?T2)"
    by simp
  have same: "y1 = y2 \<Longrightarrow> m1 = m2 \<Longrightarrow> \<not> ?T1 < ?T2" by simp
  have "(formatMonthStr (y1, m1, d1) < formatMonthStr (y2, m2, d2)) =
      (pad 4 (nat y1) @ ''-'' @ pad 2 (nat m1) @ ?T1 < pad 4 (nat y2) @ ''-'' @ pad 2 (nat m2) @ ?T2)"
    unfolding formatMonthStr_pad [OF assms(1-4)] formatMonthStr_pad [OF assms(5-8)] by simp
  also have "\<dots> = (y1 < y2 \<or> (y1 = y2 \<and> m1 < m2))"
    unfolding outer dash inner using same by blast
  finally show ?thesis .
qed

lemma monthKey_iterMonth:
  assumes "iterMonth now i = (y, m)"
  shows "monthKey now i = formatMonthStr (y, m, 1)"
  by (simp add: monthKey_def month_window(1) [OF assms])

section \<open>The month of an iteration and its key\<close>

text \<open>
  Claim C6 fails on the last days of a month. On 31 March 2024 iteration 1 asks for
  31 February, which Go normalises to 2 March: the iteration takes March 2024 again, not
  February 2024, which is the month one whole calendar month before. Its window is
  2024-03-01 to 2024-03-31 and its month key that of iteration 0.
\<close>

theorem addDate_end_of_month:
  "iterMonth (2024, 3, 31) 1 = (2024, 3) \<and>
   normMonth 2024 (3 - 1) = (2024, 2) \<and>
   firstDayOfMonth (2024, 3, 31) 1 = (2024, 3, 1) \<and>
   lastDayOfMonth (2024, 3, 31) 1 = (2024, 3, 31) \<and>
   gitArgs ''.'' (firstDayOfMonth (2024, 3, 31) 1) (lastDayOfMonth (2024, 3, 31) 1) ! 6 =
     ''--since=2024-03-01'' \<and>
   gitArgs ''.'' (firstDayOfMonth (2024, 3, 31) 1) (lastDayOfMonth (2024, 3, 31) 1) ! 7 =
     ''--until=2024-03-31'' \<and>
   monthKey (2024, 3, 31) 1 = ''(2024-03) March 2024'' \<and>
   monthKey (2024, 3, 31) 0 = ''(2024-03) March 2024''"
proof -
  have i1: "iterMonth (2024, 3, 31) 1 = (2024, 3)" and i0: "iterMonth (2024, 3, 31) 0 = (2024, 3)"
    by (simp_all add: eval_date)
  have n: "normMonth 2024 (3 - 1) = (2024, 2)" by (simp add: normMonth_def)
  have d: "daysIn 2024 3 = 31" by (simp add: daysIn_def)
  note w = month_window [OF i1]
  have k: "formatMonthStr (2024, 3, 1) = ''(2024-03) March 2024''"
    by (simp add: eval_format)
  have f: "formatISO (2024, 3, 1) = ''2024-03-01''" "formatISO (2024, 3, 31) = ''2024-03-31''"
    by (simp_all add: eval_format)
  show ?thesis
    unfolding monthKey_iterMonth [OF i1] monthKey_iterMonth [OF i0] w d i1 n k
    by (simp add: gitArgs_def f)
qed

text \<open>
  Claim C7, as amended. Two valid dates of the same month give the same month key for
  the current month; iterations that derive the same year and month have the same key;
  processDir uses the key of the first day of the month for every directory. For years
  from 0 to 9999 the lexical order of the keys is the calendar order of their months.
\<close>

theorem month_key_stable_sortable:
  "(validDate (y, m, d) \<and> validDate (y, m, d') \<longrightarrow> monthKey (y, m, d) 0 = monthKey (y, m, d') 0) \<and>
   (iterMonth now i = iterMonth now' i' \<longrightarrow> monthKey now i = monthKey now' i') \<and>
   (Output e (gitArgs dir firstDay lastDay) = Some out \<longrightarrow>
      processDir e firstDay lastDay dir g = (None, processOutput (formatMonthStr firstDay) out g)) \<and>
   (iterMonth now1 i1 = (y1, m1) \<and> iterMonth now2 i2 = (y2, m2) \<and>
    0 \<le> y1 \<and> y1 \<le> 9999 \<and> 0 \<le> y2 \<and> y2 \<le> 9999 \<longrightarrow>
      (monthKey now1 i1 < monthKey now2 i2) = (y1 < y2 \<or> (y1 = y2 \<and> m1 < m2)))"
proof (intro conjI impI)
  assume "validDate (y, m, d) \<and> validDate (y, m, d')"
  then have "iterMonth (y, m, d) 0 = (y, m)" "iterMonth (y, m, d') 0 = (y, m)"
    by (simp_all add: iterMonth_now)
  then show "monthKey (y, m, d) 0 = monthKey (y, m, d') 0"
    by (simp add: monthKey_iterMonth)
next
  assume "iterMonth now i = iterMonth now' i'"
  then show "monthKey now i = monthKey now' i'"
    by (simp add: monthKey_def firstDayOfMonth_def)
next
  assume "Output e (gitArgs dir firstDay lastDay) = Some out"
  then show "processDir e firstDay lastDay dir g =
      (None, processOutput (formatMonthStr firstDay) out g)"
    by (simp add: processDir_def)
next
  assume a: "iterMonth now1 i1 = (y1, m1) \<and> iterMonth now2 i2 = (y2, m2) \<and>
    0 \<le> y1 \<and> y1 \<le> 9999 \<and> 0 \<le> y2 \<and> y2 \<le> 9999"
  then have i: "iterMonth now1 i1 = (y1, m1)" "iterMonth now2 i2 = (y2, m2)" by simp_all
  from iterMonth_range [OF i(1)] iterMonth_range [OF i(2)] a
  show "(monthKey now1 i1 < monthKey now2 i2) = (y1 < y2 \<or> (y1 = y2 \<and> m1 < m2))"
    unfolding monthKey_iterMonth [OF i(1)] monthKey_iterMonth [OF i(2)]
    by (intro key_order) simp_all
qed

text \<open>
  Claim C7 as stated fails beyond the year 9999, where the year takes five digits: in
  January 10000 the key of the current month sorts before the key of the month before.
\<close>

theorem month_key_year_10000_counterexample:
  "iterMonth (10000, 1, 15) 0 = (10000, 1) \<and> iterMonth (10000, 1, 15) 1 = (9999, 12) \<and>
   monthKey (10000, 1, 15) 0 < monthKey (10000, 1, 15) 1"
proof -
  have i: "iterMonth (10000, 1, 15) 0 = (10000, 1)" "iterMonth (10000, 1, 15) 1 = (9999, 12)"
    by (simp_all add: eval_date)
  have "formatMonthStr (10000, 1, 1) < formatMonthStr (9999, 12, 1)"
    by (simp add: eval_format less_char_def)
  then show ?thesis
    unfolding monthKey_iterMonth [OF i(1)] monthKey_iterMonth [OF i(2)] using i by simp
qed

text \<open>The hypotheses of the amended C7 in March 2024.\<close>

theorem month_key_stable_sortable_witness:
  "validDate (2024, 3, 15) \<and> validDate (2024, 3, 31) \<and>
   monthKey (2024, 3, 15) 0 = monthKey (2024, 3, 31) 0 \<and>
   iterMonth (2024, 3, 15) 1 = (2024, 2) \<and> iterMonth (2024, 3, 15) 0 = (2024, 3) \<and>
   monthKey (2024, 3, 15) 1 < monthKey (2024, 3, 15) 0"
proof -
  have v: "validDate (2024, 3, 15)" "validDate (2024, 3, 31)"
    by (simp_all add: validDate_def daysIn_def)
  have i: "iterMonth (2024, 3, 15) 1 = (2024, 2)" "iterMonth (2024, 3, 15) 0 = (2024, 3)"
    by (simp_all add: eval_date)
  note t = month_key_stable_sortable [of 2024 3 15 31 _ _ _ _ _ _ _ _ _ _
      "(2024, 3, 15)" 1 2024 2 "(2024, 3, 15)" 0 2024 3]
  from t v have "monthKey (2024, 3, 15) 0 = monthKey (2024, 3, 31) 0" by blast
  moreover from t i have "monthKey (2024, 3, 15) 1 < monthKey (2024, 3, 15) 0" by simp
  ultimately show ?thesis using v i by simp
qed

end
